theory Spec2Isabelle
  imports Main "HOL-Library.Word"
begin

section \<open>Python values\<close>

text \<open>
  A Python \<open>str\<close> is a sequence of Unicode code points, so it is modelled as a list of
  natural numbers; \<open>len\<close> is \<open>length\<close>. \<open>ascii\<close> writes a literal.
\<close>

type_synonym pystr = "nat list"

definition ascii :: "string \<Rightarrow> pystr" where
  "ascii s = map of_char s"

text \<open>
  The code points for which \<open>str.isspace\<close> holds; \<open>str.split()\<close> without a separator
  and \<open>str.strip()\<close> without an argument both use this set.
\<close>

definition isspace :: "nat \<Rightarrow> bool" where
  "isspace c \<longleftrightarrow>
     (9 \<le> c \<and> c \<le> 13) \<or> (28 \<le> c \<and> c \<le> 32) \<or> c = 133 \<or> c = 160 \<or> c = 5760 \<or>
     (8192 \<le> c \<and> c \<le> 8202) \<or> c = 8232 \<or> c = 8233 \<or> c = 8239 \<or> c = 8287 \<or> c = 12288"

text \<open>
  \<open>text.split()\<close>: the maximal runs of non-whitespace, in order; \<open>cur\<close> is the word
  being read.
\<close>

fun split_words :: "pystr \<Rightarrow> pystr \<Rightarrow> pystr list" where
  "split_words cur [] = (if cur = [] then [] else [cur])"
| "split_words cur (c # cs) =
     (if isspace c then (if cur = [] then split_words [] cs else cur # split_words [] cs)
      else split_words (cur @ [c]) cs)"

definition py_split :: "pystr \<Rightarrow> pystr list" where
  "py_split text = split_words [] text"

text \<open>\<open>text.split(sep)\<close> for a one-character separator: never an empty list.\<close>

fun split_at :: "nat \<Rightarrow> pystr \<Rightarrow> pystr \<Rightarrow> pystr list" where
  "split_at sep cur [] = [cur]"
| "split_at sep cur (c # cs) =
     (if c = sep then cur # split_at sep [] cs else split_at sep (cur @ [c]) cs)"

definition py_split_sep :: "nat \<Rightarrow> pystr \<Rightarrow> pystr list" where
  "py_split_sep sep text = split_at sep [] text"

text \<open>\<open>sep.join(xs)\<close>.\<close>

fun py_join :: "pystr \<Rightarrow> pystr list \<Rightarrow> pystr" where
  "py_join sep [] = []"
| "py_join sep [x] = x"
| "py_join sep (x # y # ys) = x @ sep @ py_join sep (y # ys)"

text \<open>\<open>s.strip()\<close>.\<close>

definition py_strip :: "pystr \<Rightarrow> pystr" where
  "py_strip s = rev (dropWhile isspace (rev (dropWhile isspace s)))"

text \<open>
  The values \<open>json.loads\<close> produces. A \<open>dict\<close> is an association list in insertion
  order (iterating a dict yields its keys in that order); a float is carried as its 64 bits.
\<close>

datatype pyval =
    PNone
  | PBool bool
  | PInt int
  | PFloat "64 word"
  | PStr pystr
  | PList "pyval list"
  | PDict "(pystr \<times> pyval) list"

text \<open>
  \<open>xs.extend(v)\<close>: appends the elements of an iterable (the items of a list, the
  one-character strings of a str, the keys of a dict); any other value raises TypeError
  before \<open>xs\<close> is touched, which is \<open>None\<close> here.
\<close>

fun py_extend :: "pyval list \<Rightarrow> pyval \<Rightarrow> pyval list option" where
  "py_extend ps (PList xs) = Some (ps @ xs)"
| "py_extend ps (PStr s) = Some (ps @ map (\<lambda>c. PStr [c]) s)"
| "py_extend ps (PDict kvs) = Some (ps @ map (\<lambda>kv. PStr (fst kv)) kvs)"
| "py_extend ps PNone = None"
| "py_extend ps (PBool b) = None"
| "py_extend ps (PInt i) = None"
| "py_extend ps (PFloat f) = None"

section \<open>The scraper\<close>

subsection \<open>Collaborators\<close>

text \<open>
  The libraries and services the scraper calls are parameters of the model. Each is a
  function of its arguments; \<open>None\<close> stands for the call raising an exception.
  \<^item> \<open>http_get url\<close>: \<open>requests.get\<close>, \<open>raise_for_status\<close> and the HTML parse of
    lines 81-89; a page is the text \<open>soup.get_text\<close> returns once script and style
    elements are removed, and the \<open>href\<close> attributes of its anchors in document order.
  \<^item> \<open>chat_completion text\<close>: the content of the first choice of the chat completion.
  \<^item> \<open>json_loads\<close>, \<open>urljoin\<close>, \<open>urlparse\<close>: the standard library functions;
    of the result of \<open>urlparse\<close> only \<open>scheme\<close> and \<open>netloc\<close> are read.
\<close>

record url_parts =
  scheme :: pystr
  netloc :: pystr

record page =
  page_text :: pystr
  hrefs :: "pystr list"

record env =
  http_get :: "pystr \<Rightarrow> page option"
  chat_completion :: "pystr \<Rightarrow> pystr option"
  json_loads :: "pystr \<Rightarrow> pyval option"
  urljoin :: "pystr \<Rightarrow> pystr \<Rightarrow> pystr option"
  urlparse :: "pystr \<Rightarrow> url_parts option"

subsection \<open>State\<close>

text \<open>
  The fields of \<open>ProfileWebScraper\<close> that the crawl reads and writes. Two fields record
  effects: \<open>saved\<close> is the sequence of values \<open>save_data\<close> has dumped to
  \<open>profiles.json\<close> (each dump overwrites the file, so the file holds the last one), and
  \<open>popped\<close> is the sequence of URLs \<open>popleft\<close> has returned.
\<close>

record scraper =
  base_url :: pystr
  visited_urls :: "pystr set"
  urls_to_visit :: "pystr list"
  profiles :: "pyval list"
  saved :: "pyval list"
  popped :: "pystr list"

definition new_scraper :: "pystr \<Rightarrow> scraper" where
  "new_scraper base =
     \<lparr>base_url = base, visited_urls = {}, urls_to_visit = [], profiles = [],
      saved = [], popped = []\<rparr>"

subsection \<open>Operations\<close>

definition is_valid_url :: "env \<Rightarrow> scraper \<Rightarrow> pystr \<Rightarrow> bool" where
  "is_valid_url w s url =
     (case urlparse w (base_url s) of
        None \<Rightarrow> False
      | Some parsed_base \<Rightarrow>
          (case urlparse w url of
             None \<Rightarrow> False
           | Some parsed_url \<Rightarrow>
               netloc parsed_url = netloc parsed_base \<and>
               scheme parsed_url \<in> set [ascii ''http'', ascii ''https'']))"

definition clean_text :: "pystr \<Rightarrow> pystr" where
  "clean_text text =
     (let text' = py_join [32] (py_split text);
          lines = filter (\<lambda>line. 30 < length (py_strip line)) (py_split_sep 10 text')
      in py_join [10] lines)"

text \<open>
  The lines written to standard output by \<open>extract_profiles_with_openai\<close>: its handler
  prints \<open>Error processing text with OpenAI:\<close> followed by the text of the exception,
  which is not modelled.
\<close>

datatype printed = Error_processing_text

text \<open>
  The result of the call and what it prints. Every exception inside the \<open>try\<close> (the API
  call, \<open>json.loads\<close>, \<open>.get\<close> on a value that is not a dict) ends in the handler,
  which prints one line and returns \<open>[]\<close>. A dict answers \<open>.get('profiles', [])\<close> with
  whatever is stored under the key, or with the default \<open>[]\<close>; nothing is raised and
  nothing is printed then.
\<close>

definition extract_profiles_with_openai :: "env \<Rightarrow> pystr \<Rightarrow> pyval \<times> printed list" where
  "extract_profiles_with_openai w text =
     (case chat_completion w text of
        None \<Rightarrow> (PList [], [Error_processing_text])
      | Some content \<Rightarrow>
          (case json_loads w content of
             None \<Rightarrow> (PList [], [Error_processing_text])
           | Some result \<Rightarrow>
               (case result of
                  PDict kvs \<Rightarrow>
                    (case map_of kvs (ascii ''profiles'') of None \<Rightarrow> PList [] | Some v \<Rightarrow> v, [])
                | _ \<Rightarrow> (PList [], [Error_processing_text]))))"

text \<open>
  The loop over the anchors. The boolean is \<open>True\<close> when the loop ran to its end and
  \<open>False\<close> when \<open>urljoin\<close> raised; what was appended before the exception stays.
\<close>

fun extract_links :: "env \<Rightarrow> pystr list \<Rightarrow> pystr \<Rightarrow> scraper \<Rightarrow> bool \<times> scraper" where
  "extract_links w [] current_url s = (True, s)"
| "extract_links w (href # links) current_url s =
     (case urljoin w current_url href of
        None \<Rightarrow> (False, s)
      | Some absolute_url \<Rightarrow>
          extract_links w links current_url
            (if is_valid_url w s absolute_url \<and>
                absolute_url \<notin> visited_urls s \<and>
                absolute_url \<notin> set (urls_to_visit s)
             then s\<lparr>urls_to_visit := urls_to_visit s @ [absolute_url]\<rparr>
             else s))"

definition scrape_page :: "env \<Rightarrow> pystr \<Rightarrow> scraper \<Rightarrow> bool \<times> scraper" where
  "scrape_page w url s =
     (case http_get w url of
        None \<Rightarrow> (False, s)
      | Some pg \<Rightarrow>
          (let text = clean_text (page_text pg);
               extracted_profiles = fst (extract_profiles_with_openai w text)
           in case py_extend (profiles s) extracted_profiles of
                None \<Rightarrow> (False, s)
              | Some ps \<Rightarrow> extract_links w (hrefs pg) url (s\<lparr>profiles := ps\<rparr>)))"

text \<open>
  \<open>save_data\<close> overwrites the output file with the dump of the profile list; the write is
  taken to succeed (the constructor has created the directory). The one-second sleep and
  the messages printed by \<open>scrape_page\<close> and by the loop change nothing the claims speak of
  and are left out.
\<close>

definition save_data :: "scraper \<Rightarrow> scraper" where
  "save_data s = s\<lparr>saved := saved s @ [PDict [(ascii ''profiles'', PList (profiles s))]]\<rparr>"

text \<open>
  One iteration of the \<open>while\<close> loop of \<open>scrape_website\<close>, entered only with a non-empty
  queue; \<open>pages_scraped\<close> is the loop's local counter.
\<close>

definition loop_body :: "env \<Rightarrow> int \<times> scraper \<Rightarrow> int \<times> scraper" where
  "loop_body w ps =
     (let pages_scraped = fst ps; s = snd ps;
          current_url = hd (urls_to_visit s);
          s1 = s\<lparr>urls_to_visit := tl (urls_to_visit s), popped := popped s @ [current_url]\<rparr>
      in if current_url \<in> visited_urls s1 then (pages_scraped, s1)
         else
           (let s2 = s1\<lparr>visited_urls := insert current_url (visited_urls s1)\<rparr>;
                r = scrape_page w current_url s2;
                pages_scraped' = (if fst r then pages_scraped + 1 else pages_scraped)
            in (pages_scraped',
                if pages_scraped' mod 10 = 0 then save_data (snd r) else snd r)))"

definition loop_cond :: "int \<Rightarrow> int \<times> scraper \<Rightarrow> bool" where
  "loop_cond max_pages ps \<longleftrightarrow> urls_to_visit (snd ps) \<noteq> [] \<and> fst ps < max_pages"

text \<open>The \<open>while\<close> loop; \<open>None\<close> is a loop that never ends.\<close>

partial_function (option) crawl_loop :: "env \<Rightarrow> int \<Rightarrow> int \<times> scraper \<Rightarrow> (int \<times> scraper) option"
where
  "crawl_loop w max_pages ps =
     (if loop_cond max_pages ps then crawl_loop w max_pages (loop_body w ps) else Some ps)"

definition enqueue_base :: "scraper \<Rightarrow> int \<times> scraper" where
  "enqueue_base s = (0, s\<lparr>urls_to_visit := urls_to_visit s @ [base_url s]\<rparr>)"

definition scrape_website :: "env \<Rightarrow> int \<Rightarrow> scraper \<Rightarrow> scraper option" where
  "scrape_website w max_pages s =
     (case crawl_loop w max_pages (enqueue_base s) of
        None \<Rightarrow> None
      | Some ps \<Rightarrow> Some (save_data (snd ps)))"

text \<open>
  The states at the head of the loop during a crawl that starts from a freshly constructed
  scraper, as \<open>main\<close> does.
\<close>

inductive reachable :: "env \<Rightarrow> int \<Rightarrow> pystr \<Rightarrow> int \<times> scraper \<Rightarrow> bool"
  for w :: env and max_pages :: int and base :: pystr
where
  start: "reachable w max_pages base (enqueue_base (new_scraper base))"
| iterate: "reachable w max_pages base ps \<Longrightarrow> loop_cond max_pages ps \<Longrightarrow>
     reachable w max_pages base (loop_body w ps)"

subsection \<open>Notions used in the statements\<close>

text \<open>A list of words as \<open>split()\<close> returns them: none empty, none with whitespace.\<close>

definition spaceless :: "pystr list \<Rightarrow> bool" where
  "spaceless ws \<longleftrightarrow> (\<forall>w \<in> set ws. w \<noteq> [] \<and> (\<forall>c \<in> set w. \<not> isspace c))"

text \<open>
  The decoded reply of the extraction collaborator: \<open>None\<close> when the API call or
  \<open>json.loads\<close> raised.
\<close>

definition reply :: "env \<Rightarrow> pystr \<Rightarrow> pyval option" where
  "reply w text =
     (case chat_completion w text of None \<Rightarrow> None | Some content \<Rightarrow> json_loads w content)"


text \<open>
  \<open>scrape_page\<close> returns \<open>True\<close> for a URL: the fetch and the parse succeed, the
  extracted value can be appended to the profile list, and \<open>urljoin\<close> accepts every
  anchor. None of this depends on the state of the scraper.
\<close>

definition page_succeeds :: "env \<Rightarrow> pystr \<Rightarrow> bool" where
  "page_succeeds w url =
     (case http_get w url of
        None \<Rightarrow> False
      | Some pg \<Rightarrow>
          py_extend [] (fst (extract_profiles_with_openai w (clean_text (page_text pg)))) \<noteq> None \<and>
          list_all (\<lambda>href. urljoin w url href \<noteq> None) (hrefs pg))"



subsection \<open>Example sites\<close>

text \<open>
  The site of the specification's scenarios. The page at \<open>http://example.com\<close> has two
  anchors, one to \<open>http://example.com/about\<close> and one to \<open>http://other.com/x\<close>; the
  fetch of \<open>/about\<close> times out. The tables for \<open>urlparse\<close> and \<open>urljoin\<close> hold what
  the standard library returns on the strings the examples use: \<open>urlparse('example.com')\<close>
  has an empty scheme and an empty netloc, \<open>http://[\<close> makes both functions raise
  ValueError, and \<open>urljoin\<close> returns an absolute http URL unchanged. The examples ask
  \<open>urlparse\<close> for no other string of this site and \<open>urljoin\<close> only for absolute http
  URLs and for \<open>http://[\<close>.
\<close>

definition example_base :: pystr where
  "example_base = ascii ''http://example.com''"

definition example_about :: pystr where
  "example_about = ascii ''http://example.com/about''"

definition example_other :: pystr where
  "example_other = ascii ''http://other.com/x''"

definition bare_host :: pystr where
  "bare_host = ascii ''example.com''"

definition bad_href :: pystr where
  "bad_href = ascii ''http://[''"

definition example_urlparse :: "pystr \<Rightarrow> url_parts option" where
  "example_urlparse u =
     (if u = example_base \<or> u = example_about
      then Some \<lparr>scheme = ascii ''http'', netloc = ascii ''example.com''\<rparr>
      else if u = example_other
      then Some \<lparr>scheme = ascii ''http'', netloc = ascii ''other.com''\<rparr>
      else if u = bare_host
      then Some \<lparr>scheme = [], netloc = []\<rparr>
      else None)"

definition example_urljoin :: "pystr \<Rightarrow> pystr \<Rightarrow> pystr option" where
  "example_urljoin current_url href = (if href = bad_href then None else Some href)"

definition example_http_get :: "pystr \<Rightarrow> page option" where
  "example_http_get u =
     (if u = example_base
      then Some \<lparr>page_text = ascii ''Ada  Lovelace'', hrefs = [example_about, example_other]\<rparr>
      else None)"

text \<open>
  The reply \<open>{"profiles":[{"name":"Ada","about":"A pioneer"}]}\<close>, and four replies that
  are valid JSON of another shape: \<open>{"profiles":[{"x":1}]}\<close>, which holds no profile
  record, \<open>{"profiles":null}\<close>, the empty object \<open>{}\<close> and the empty array \<open>[]\<close>.
\<close>

definition ada_reply :: pystr where
  "ada_reply =
     [123, 34, 112, 114, 111, 102, 105, 108, 101, 115, 34, 58, 91, 123, 34, 110, 97, 109,
      101, 34, 58, 34, 65, 100, 97, 34, 44, 34, 97, 98, 111, 117, 116, 34, 58, 34, 65, 32,
      112, 105, 111, 110, 101, 101, 114, 34, 125, 93, 125]"

definition odd_reply :: pystr where
  "odd_reply =
     [123, 34, 112, 114, 111, 102, 105, 108, 101, 115, 34, 58, 91, 123, 34, 120, 34, 58,
      49, 125, 93, 125]"

definition null_reply :: pystr where
  "null_reply = [123, 34, 112, 114, 111, 102, 105, 108, 101, 115, 34, 58, 110, 117, 108, 108, 125]"

definition empty_object_reply :: pystr where
  "empty_object_reply = [123, 125]"

definition array_reply :: pystr where
  "array_reply = [91, 93]"

definition ada_record :: pyval where
  "ada_record = PDict [(ascii ''name'', PStr (ascii ''Ada'')), (ascii ''about'', PStr (ascii ''A pioneer''))]"

definition example_json_loads :: "pystr \<Rightarrow> pyval option" where
  "example_json_loads content =
     (if content = ada_reply
      then Some (PDict [(ascii ''profiles'',
             PList [PDict [(ascii ''name'', PStr (ascii ''Ada'')),
                           (ascii ''about'', PStr (ascii ''A pioneer''))]])])
      else if content = odd_reply
      then Some (PDict [(ascii ''profiles'', PList [PDict [(ascii ''x'', PInt 1)]])])
      else if content = null_reply
      then Some (PDict [(ascii ''profiles'', PNone)])
      else if content = empty_object_reply
      then Some (PDict [])
      else if content = array_reply
      then Some (PList [])
      else None)"

definition ada_chat :: "pystr \<Rightarrow> pystr option" where
  "ada_chat text = Some ada_reply"

definition odd_chat :: "pystr \<Rightarrow> pystr option" where
  "odd_chat text = Some odd_reply"




definition failing_chat :: "pystr \<Rightarrow> pystr option" where
  "failing_chat text = None"

definition example_site :: env where
  "example_site =
     \<lparr>http_get = example_http_get, chat_completion = ada_chat,
      json_loads = example_json_loads, urljoin = example_urljoin,
      urlparse = example_urlparse\<rparr>"

definition example_site_odd_reply :: env where
  "example_site_odd_reply = example_site\<lparr>chat_completion := odd_chat\<rparr>"

definition example_site_no_llm :: env where
  "example_site_no_llm = example_site\<lparr>chat_completion := failing_chat\<rparr>"




text \<open>
  A site without end: the server answers every URL \<open>u\<close> with a page of two anchors, the
  first to the absolute URL \<open>u\<close> followed by the letter \<open>a\<close>, the second with the
  malformed \<open>href\<close> \<open>http://[\<close>. Every string that starts with \<open>http://h/\<close> parses to
  scheme \<open>http\<close> and netloc \<open>h\<close>.
\<close>

definition endless_base :: pystr where
  "endless_base = ascii ''http://h/''"

definition endless_http_get :: "pystr \<Rightarrow> page option" where
  "endless_http_get u = Some \<lparr>page_text = [], hrefs = [u @ [97], bad_href]\<rparr>"

definition endless_urlparse :: "pystr \<Rightarrow> url_parts option" where
  "endless_urlparse u =
     (if take 9 u = endless_base
      then Some \<lparr>scheme = ascii ''http'', netloc = ascii ''h''\<rparr>
      else None)"

definition endless_site :: env where
  "endless_site =
     \<lparr>http_get = endless_http_get, chat_completion = failing_chat,
      json_loads = example_json_loads, urljoin = example_urljoin,
      urlparse = endless_urlparse\<rparr>"

text \<open>
  A chain of pages: the server answers every URL \<open>u\<close> with a page whose one anchor leads
  to the absolute URL \<open>u\<close> followed by the letter \<open>a\<close>, and the extraction finds one
  profile on every page. \<open>chain_state n\<close> is the state at the head of the loop after
  \<open>n\<close> pages of a crawl from \<open>http://h/\<close> that has not saved yet.
\<close>

definition chain_http_get :: "pystr \<Rightarrow> page option" where
  "chain_http_get u = Some \<lparr>page_text = [], hrefs = [u @ [97]]\<rparr>"

definition chain_site :: env where
  "chain_site =
     \<lparr>http_get = chain_http_get, chat_completion = ada_chat,
      json_loads = example_json_loads, urljoin = example_urljoin,
      urlparse = endless_urlparse\<rparr>"

definition chain_url :: "nat \<Rightarrow> pystr" where
  "chain_url n = endless_base @ replicate n 97"

definition chain_state :: "nat \<Rightarrow> int \<times> scraper" where
  "chain_state n =
     (int n,
      \<lparr>base_url = endless_base, visited_urls = chain_url ` {..<n},
       urls_to_visit = [chain_url n], profiles = replicate n ada_record,
       saved = [], popped = map chain_url [0..<n]\<rparr>)"

text \<open>The invariant of the loop of a crawl that starts at \<open>base\<close>.\<close>

definition frontier_inv :: "env \<Rightarrow> pystr \<Rightarrow> scraper \<Rightarrow> bool" where
  "frontier_inv w base s \<longleftrightarrow>
     base_url s = base \<and>
     distinct (urls_to_visit s) \<and>
     set (urls_to_visit s) \<inter> visited_urls s = {} \<and>
     distinct (popped s) \<and>
     set (popped s) = visited_urls s \<and>
     (\<forall>u \<in> set (urls_to_visit s) \<union> set (popped s). u = base \<or> is_valid_url w (new_scraper base) u)"

text \<open>
  The states of the crawl of the site without end: nothing scraped, one URL queued, the
  shorter ones visited.
\<close>

definition endless_inv :: "int \<times> scraper \<Rightarrow> bool" where
  "endless_inv ps \<longleftrightarrow>
     fst ps = 0 \<and> base_url (snd ps) = endless_base \<and>
     (\<exists>n. urls_to_visit (snd ps) = [endless_base @ replicate n 97] \<and>
          visited_urls (snd ps) = (\<lambda>k. endless_base @ replicate k 97) ` {..<n})"

section \<open>Cleaning the page text\<close>

lemma split_words_append:
  "\<forall>c \<in> set w. \<not> isspace c \<Longrightarrow> split_words cur (w @ rest) = split_words (cur @ w) rest"
  by (induction w arbitrary: cur) simp_all

lemma spaceless_Nil: "spaceless []"
  by (simp add: spaceless_def)

lemma spaceless_Cons:
  "spaceless (w # ws) \<longleftrightarrow> w \<noteq> [] \<and> (\<forall>c \<in> set w. \<not> isspace c) \<and> spaceless ws"
  by (auto simp: spaceless_def)

lemma split_words_spaceless:
  "\<forall>c \<in> set cur. \<not> isspace c \<Longrightarrow> spaceless (split_words cur str)"
proof (induction str arbitrary: cur)
  case Nil
  then show ?case by (simp add: spaceless_Nil spaceless_Cons)
next
  case (Cons a str)
  have nil: "spaceless (split_words [] str)"
    using Cons.IH [of "[]"] by simp
  show ?case
  proof (cases "isspace a")
    case True
    with nil Cons.prems show ?thesis by (simp add: spaceless_Cons)
  next
    case False
    with Cons.prems have "\<forall>c \<in> set (cur @ [a]). \<not> isspace c" by simp
    from Cons.IH [OF this] False show ?thesis by simp
  qed
qed

lemma py_split_spaceless: "spaceless (py_split text)"
  by (simp add: py_split_def split_words_spaceless)

lemma concat_split_words:
  "concat (split_words cur str) = cur @ filter (\<lambda>c. \<not> isspace c) str"
  by (induction str arbitrary: cur) simp_all

lemma isspace_32: "isspace 32"
  by (simp add: isspace_def)

lemma isspace_10: "isspace 10"
  by (simp add: isspace_def)

lemma split_words_join:
  "spaceless ws \<Longrightarrow> split_words [] (py_join [32] ws) = ws"
proof (induction "[32::nat]" ws rule: py_join.induct)
  case 1
  show ?case by simp
next
  case (2 x)
  then have "\<forall>c \<in> set x. \<not> isspace c" and "x \<noteq> []"
    by (simp_all add: spaceless_def)
  then show ?case
    using split_words_append [of x "[]" "[]"] by simp
next
  case (3 x y ys)
  then have x: "\<forall>c \<in> set x. \<not> isspace c" "x \<noteq> []" and rest: "spaceless (y # ys)"
    by (simp_all add: spaceless_def)
  have "split_words [] (py_join [32] (x # y # ys)) = split_words x (32 # py_join [32] (y # ys))"
    using split_words_append [OF x(1), of "[]"] by simp
  also have "\<dots> = x # split_words [] (py_join [32] (y # ys))"
    using x(2) by (simp add: isspace_32)
  finally show ?case
    using 3 rest by simp
qed

lemma set_py_join: "set (py_join sep ws) \<subseteq> set sep \<union> \<Union> (set ` set ws)"
  by (induction sep ws rule: py_join.induct) auto

lemma join_only_spaces:
  assumes "spaceless ws" and "c \<in> set (py_join [32] ws)" and "isspace c"
  shows "c = 32"
  using set_py_join [of "[32]" ws] assms by (auto simp: spaceless_def)

lemma join_no_newline: "spaceless ws \<Longrightarrow> 10 \<notin> set (py_join [32] ws)"
  using join_only_spaces [of ws 10] by (auto simp: isspace_10)

lemma split_at_absent: "sep \<notin> set str \<Longrightarrow> split_at sep cur str = [cur @ str]"
  by (induction str arbitrary: cur) simp_all

lemma py_strip_id:
  "s = [] \<or> (\<not> isspace (hd s) \<and> \<not> isspace (last s)) \<Longrightarrow> py_strip s = s"
proof (cases s)
  case Nil
  then show ?thesis by (simp add: py_strip_def)
next
  case (Cons a as)
  assume "s = [] \<or> (\<not> isspace (hd s) \<and> \<not> isspace (last s))"
  with Cons have h: "\<not> isspace a" and l: "\<not> isspace (last s)" by simp_all
  from h Cons have 1: "dropWhile isspace s = s" by simp
  from Cons have "rev s = last s # rev (butlast s)"
    by (metis append_butlast_last_id list.distinct(1) rev.simps(2) rev_rev_ident rev_singleton_conv rev_append append_Cons append_Nil)
  moreover from l have "dropWhile isspace (last s # rev (butlast s)) = last s # rev (butlast s)"
    by simp
  ultimately have 2: "dropWhile isspace (rev s) = rev s" by (simp only:)
  show ?thesis by (simp add: py_strip_def 1 2)
qed

lemma join_ends:
  "spaceless ws \<Longrightarrow> py_join [32] ws = [] \<or>
     (\<not> isspace (hd (py_join [32] ws)) \<and> \<not> isspace (last (py_join [32] ws)))"
proof (induction "[32::nat]" ws rule: py_join.induct)
  case 1
  show ?case by simp
next
  case (2 x)
  then show ?case by (cases x) (auto simp: spaceless_def)
next
  case (3 x y ys)
  then have x: "\<forall>c \<in> set x. \<not> isspace c" "x \<noteq> []" and rest: "spaceless (y # ys)"
    by (simp_all add: spaceless_def)
  from rest have "y \<noteq> []" by (simp add: spaceless_def)
  then have ne: "py_join [32] (y # ys) \<noteq> []" by (cases ys) simp_all
  with 3 rest have "\<not> isspace (last (py_join [32] (y # ys)))" by simp
  moreover from x have "\<not> isspace (hd x)" by (cases x) simp_all
  ultimately show ?case using x(2) ne by simp
qed

lemma clean_text_collapsed:
  "clean_text text =
     (if 30 < length (py_join [32] (py_split text)) then py_join [32] (py_split text) else [])"
proof -
  let ?t = "py_join [32] (py_split text)"
  have "py_split_sep 10 ?t = [?t]"
    using join_no_newline [OF py_split_spaceless, of "text"]
    by (simp add: py_split_sep_def split_at_absent)
  moreover have "py_strip ?t = ?t"
    using join_ends [OF py_split_spaceless, of "text"] by (rule py_strip_id)
  ultimately show ?thesis by (simp add: clean_text_def)
qed

lemma collapse_idem:
  "py_join [32] (py_split (py_join [32] (py_split text))) = py_join [32] (py_split text)"
  using split_words_join [OF py_split_spaceless, of "text"] by (simp add: py_split_def)

lemma split_words_letters:
  "0 < n \<Longrightarrow> split_words [] (replicate n 97 @ rest) = split_words (replicate n 97) rest"
  using split_words_append [of "replicate n 97" "[]" rest] by (simp add: isspace_def)

section \<open>Link discovery, page processing and the loop\<close>

lemma is_valid_url_update:
  "is_valid_url w (s\<lparr>urls_to_visit := q\<rparr>) = is_valid_url w s"
  "is_valid_url w (s\<lparr>profiles := p\<rparr>) = is_valid_url w s"
  "is_valid_url w (s\<lparr>visited_urls := v\<rparr>) = is_valid_url w s"
  "is_valid_url w (s\<lparr>popped := d\<rparr>) = is_valid_url w s"
  "is_valid_url w (s\<lparr>saved := f\<rparr>) = is_valid_url w s"
  by (simp_all add: is_valid_url_def fun_eq_iff)

text \<open>Link discovery touches the queue only.\<close>

lemma extract_links_fields:
  "base_url (snd (extract_links w links cur s)) = base_url s \<and>
   visited_urls (snd (extract_links w links cur s)) = visited_urls s \<and>
   profiles (snd (extract_links w links cur s)) = profiles s \<and>
   saved (snd (extract_links w links cur s)) = saved s \<and>
   popped (snd (extract_links w links cur s)) = popped s"
  by (induction links arbitrary: s) (simp_all split: option.split)

text \<open>It appends fresh admitted URLs to the queue.\<close>

lemma extract_links_queue:
  "\<exists>ys. urls_to_visit (snd (extract_links w links cur s)) = urls_to_visit s @ ys \<and>
        distinct ys \<and>
        (\<forall>u \<in> set ys. is_valid_url w s u \<and> u \<notin> visited_urls s \<and> u \<notin> set (urls_to_visit s))"
proof (induction links arbitrary: s)
  case Nil
  show ?case by simp
next
  case (Cons href links)
  show ?case
  proof (cases "urljoin w cur href")
    case None
    then show ?thesis by simp
  next
    case (Some a)
    show ?thesis
    proof (cases "is_valid_url w s a \<and> a \<notin> visited_urls s \<and> a \<notin> set (urls_to_visit s)")
      case False
      with Some have "extract_links w (href # links) cur s = extract_links w links cur s"
        by auto
      with Cons.IH [of s] show ?thesis by simp
    next
      case True
      let ?s1 = "s\<lparr>urls_to_visit := urls_to_visit s @ [a]\<rparr>"
      from Some True have eq: "extract_links w (href # links) cur s = extract_links w links cur ?s1"
        by simp
      from Cons.IH [of ?s1] obtain ys where
        ys: "urls_to_visit (snd (extract_links w links cur ?s1)) = urls_to_visit ?s1 @ ys"
          "distinct ys"
          "\<forall>u \<in> set ys. is_valid_url w ?s1 u \<and> u \<notin> visited_urls ?s1 \<and> u \<notin> set (urls_to_visit ?s1)"
        by blast
      have 1: "urls_to_visit (snd (extract_links w (href # links) cur s)) = urls_to_visit s @ (a # ys)"
        using eq ys(1) by simp
      have 2: "distinct (a # ys)" using ys(2,3) by auto
      have 3: "\<forall>u \<in> set (a # ys). is_valid_url w s u \<and> u \<notin> visited_urls s \<and> u \<notin> set (urls_to_visit s)"
        using True ys(3) by (auto simp: is_valid_url_update)
      from 1 2 3 show ?thesis by (intro exI [of _ "a # ys"] conjI)
    qed
  qed
qed

lemma extract_links_completes:
  "\<forall>h \<in> set links. urljoin w cur h \<noteq> None \<Longrightarrow> fst (extract_links w links cur s)"
  by (induction links arbitrary: s) (auto split: option.splits)

lemma scrape_page_fields:
  "base_url (snd (scrape_page w url s)) = base_url s \<and>
   visited_urls (snd (scrape_page w url s)) = visited_urls s \<and>
   saved (snd (scrape_page w url s)) = saved s \<and>
   popped (snd (scrape_page w url s)) = popped s"
  by (simp add: scrape_page_def Let_def extract_links_fields split: option.split)

lemma scrape_page_queue:
  "\<exists>ys. urls_to_visit (snd (scrape_page w url s)) = urls_to_visit s @ ys \<and>
        distinct ys \<and>
        (\<forall>u \<in> set ys. is_valid_url w s u \<and> u \<notin> visited_urls s \<and> u \<notin> set (urls_to_visit s))"
proof (cases "http_get w url")
  case None
  then show ?thesis by (simp add: scrape_page_def)
next
  case (Some pg)
  show ?thesis
  proof (cases "py_extend (profiles s) (fst (extract_profiles_with_openai w (clean_text (page_text pg))))")
    case None
    with \<open>http_get w url = Some pg\<close> show ?thesis by (simp add: scrape_page_def)
  next
    case (Some ps)
    let ?s1 = "s\<lparr>profiles := ps\<rparr>"
    from \<open>http_get w url = Some pg\<close> Some
    have eq: "scrape_page w url s = extract_links w (hrefs pg) url ?s1"
      by (simp add: scrape_page_def)
    from extract_links_queue [of w "hrefs pg" url ?s1] obtain ys where
      ys: "urls_to_visit (snd (extract_links w (hrefs pg) url ?s1)) = urls_to_visit ?s1 @ ys"
        "distinct ys"
        "\<forall>u \<in> set ys. is_valid_url w ?s1 u \<and> u \<notin> visited_urls ?s1 \<and> u \<notin> set (urls_to_visit ?s1)"
      by blast
    have 1: "urls_to_visit (snd (scrape_page w url s)) = urls_to_visit s @ ys"
      using eq ys(1) by simp
    have 3: "\<forall>u \<in> set ys. is_valid_url w s u \<and> u \<notin> visited_urls s \<and> u \<notin> set (urls_to_visit s)"
      using ys(3) by (simp add: is_valid_url_update)
    from 1 ys(2) 3 show ?thesis by (intro exI [of _ ys] conjI)
  qed
qed

lemma frontier_inv_start: "frontier_inv w base (snd (enqueue_base (new_scraper base)))"
  by (simp add: frontier_inv_def enqueue_base_def new_scraper_def)

lemma frontier_inv_save: "frontier_inv w base (save_data s) = frontier_inv w base s"
  by (simp add: frontier_inv_def save_data_def is_valid_url_def)

lemma save_data_fields:
  "base_url (save_data s) = base_url s"
  "visited_urls (save_data s) = visited_urls s"
  "urls_to_visit (save_data s) = urls_to_visit s"
  "profiles (save_data s) = profiles s"
  "popped (save_data s) = popped s"
  by (simp_all add: save_data_def)

text \<open>One iteration, field by field, when the head of the queue has not been visited.\<close>

lemma loop_body_fresh:
  assumes q: "urls_to_visit s = u # rest" and nv: "u \<notin> visited_urls s"
  defines "s2 \<equiv> s\<lparr>urls_to_visit := rest, popped := popped s @ [u],
                    visited_urls := insert u (visited_urls s)\<rparr>"
  shows "fst (loop_body w (n, s)) = (if fst (scrape_page w u s2) then n + 1 else n)"
    and "base_url (snd (loop_body w (n, s))) = base_url s"
    and "visited_urls (snd (loop_body w (n, s))) = insert u (visited_urls s)"
    and "popped (snd (loop_body w (n, s))) = popped s @ [u]"
    and "urls_to_visit (snd (loop_body w (n, s))) = urls_to_visit (snd (scrape_page w u s2))"
    and "profiles (snd (loop_body w (n, s))) = profiles (snd (scrape_page w u s2))"
    and "saved (snd (loop_body w (n, s))) =
           (if fst (loop_body w (n, s)) mod 10 = 0
            then saved s @ [PDict [(ascii ''profiles'', PList (profiles (snd (loop_body w (n, s)))))]]
            else saved s)"
proof -
  have lb: "loop_body w (n, s) =
      (if fst (scrape_page w u s2) then n + 1 else n,
       if (if fst (scrape_page w u s2) then n + 1 else n) mod 10 = 0
       then save_data (snd (scrape_page w u s2)) else snd (scrape_page w u s2))"
    using q nv by (simp add: loop_body_def Let_def s2_def)
  show "fst (loop_body w (n, s)) = (if fst (scrape_page w u s2) then n + 1 else n)"
    by (simp add: lb)
  show "base_url (snd (loop_body w (n, s))) = base_url s"
    using scrape_page_fields [of w u s2] by (simp add: lb save_data_fields s2_def)
  show "visited_urls (snd (loop_body w (n, s))) = insert u (visited_urls s)"
    using scrape_page_fields [of w u s2] by (simp add: lb save_data_fields s2_def)
  show "popped (snd (loop_body w (n, s))) = popped s @ [u]"
    using scrape_page_fields [of w u s2] by (simp add: lb save_data_fields s2_def)
  show "urls_to_visit (snd (loop_body w (n, s))) = urls_to_visit (snd (scrape_page w u s2))"
    by (simp add: lb save_data_fields)
  show "profiles (snd (loop_body w (n, s))) = profiles (snd (scrape_page w u s2))"
    by (simp add: lb save_data_fields)
  have "saved (snd (scrape_page w u s2)) = saved s"
    using scrape_page_fields [of w u s2] by (simp add: s2_def)
  then show "saved (snd (loop_body w (n, s))) =
           (if fst (loop_body w (n, s)) mod 10 = 0
            then saved s @ [PDict [(ascii ''profiles'', PList (profiles (snd (loop_body w (n, s)))))]]
            else saved s)"
    by (simp add: lb save_data_def)
qed

lemma inv_head_fresh:
  "frontier_inv w base s \<Longrightarrow> urls_to_visit s = u # rest \<Longrightarrow> u \<notin> visited_urls s \<and> u \<notin> set rest"
  by (auto simp: frontier_inv_def)

lemma loop_body_inv:
  assumes inv: "frontier_inv w base (snd ps)" and c: "loop_cond max_pages ps"
  shows "frontier_inv w base (snd (loop_body w ps))"
proof -
  obtain n s where ps: "ps = (n, s)" by (cases ps)
  from c ps obtain u rest where q: "urls_to_visit s = u # rest"
    by (cases "urls_to_visit s") (auto simp: loop_cond_def)
  from inv ps have inv': "frontier_inv w base s" by simp
  from inv_head_fresh [OF inv' q] have nv: "u \<notin> visited_urls s" and nr: "u \<notin> set rest"
    by simp_all
  let ?s2 = "s\<lparr>urls_to_visit := rest, popped := popped s @ [u],
                visited_urls := insert u (visited_urls s)\<rparr>"
  let ?s' = "snd (loop_body w (n, s))"
  note f = loop_body_fresh [OF q nv, of w n]
  from scrape_page_queue [of w u ?s2] obtain ys where
    ys: "urls_to_visit (snd (scrape_page w u ?s2)) = rest @ ys" "distinct ys"
      "\<forall>v \<in> set ys. is_valid_url w s v \<and> v \<noteq> u \<and> v \<notin> visited_urls s \<and> v \<notin> set rest"
    by (auto simp: is_valid_url_update)
  have b: "base_url s = base" using inv' by (simp add: frontier_inv_def)
  have v: "is_valid_url w s = is_valid_url w (new_scraper base)"
    using b by (simp add: is_valid_url_def new_scraper_def fun_eq_iff)
  have 1: "base_url ?s' = base" using f(2) b by simp
  have 2: "distinct (urls_to_visit ?s')"
    using f(5) ys inv' q by (auto simp: frontier_inv_def)
  have 3: "set (urls_to_visit ?s') \<inter> visited_urls ?s' = {}"
    using f(5) f(3) ys inv' q nr by (auto simp: frontier_inv_def)
  have 4: "distinct (popped ?s')"
    using f(4) inv' nv by (simp add: frontier_inv_def)
  have 5: "set (popped ?s') = visited_urls ?s'"
    using f(4) f(3) inv' by (simp add: frontier_inv_def)
  have 6: "\<forall>x \<in> set (urls_to_visit ?s') \<union> set (popped ?s'). x = base \<or> is_valid_url w (new_scraper base) x"
    using f(5) f(4) ys(1,3) inv' q v by (auto simp: frontier_inv_def)
  from 1 2 3 4 5 6 show ?thesis
    unfolding ps frontier_inv_def by simp
qed

lemma reachable_inv: "reachable w max_pages base ps \<Longrightarrow> frontier_inv w base (snd ps)"
  by (induction rule: reachable.induct) (simp_all add: frontier_inv_start loop_body_inv)

lemma crawl_loop_reachable_imp:
  assumes "crawl_loop w max_pages ps = Some ps'"
  shows "reachable w max_pages base ps \<longrightarrow>
     reachable w max_pages base ps' \<and> \<not> loop_cond max_pages ps'"
proof (rule crawl_loop.raw_induct
    [where P = "\<lambda>w m ps ps'. reachable w m base ps \<longrightarrow> reachable w m base ps' \<and> \<not> loop_cond m ps'",
     OF _ assms])
  fix f :: "env \<Rightarrow> int \<Rightarrow> int \<times> scraper \<Rightarrow> (int \<times> scraper) option"
  fix w m ps y
  assume IH: "\<And>w m ps y. f w m ps = Some y \<Longrightarrow>
      reachable w m base ps \<longrightarrow> reachable w m base y \<and> \<not> loop_cond m y"
  assume eq: "(if loop_cond m ps then f w m (loop_body w ps) else Some ps) = Some y"
  show "reachable w m base ps \<longrightarrow> reachable w m base y \<and> \<not> loop_cond m y"
  proof
    assume r: "reachable w m base ps"
    show "reachable w m base y \<and> \<not> loop_cond m y"
    proof (cases "loop_cond m ps")
      case True
      with eq have e: "f w m (loop_body w ps) = Some y" by simp
      have "reachable w m base (loop_body w ps)"
        using r True by (rule reachable.iterate)
      with IH [OF e] show ?thesis by simp
    next
      case False
      with eq r show ?thesis by simp
    qed
  qed
qed

lemma crawl_loop_reachable:
  "crawl_loop w max_pages ps = Some ps' \<Longrightarrow> reachable w max_pages base ps \<Longrightarrow>
     reachable w max_pages base ps' \<and> \<not> loop_cond max_pages ps'"
  using crawl_loop_reachable_imp by blast

lemma reply_none_extract:
  "reply w text = None \<Longrightarrow> fst (extract_profiles_with_openai w text) = PList []"
  by (simp add: reply_def extract_profiles_with_openai_def split: option.splits)

lemma extract_by_reply:
  "fst (extract_profiles_with_openai w text) =
     (case reply w text of
        Some (PDict kvs) \<Rightarrow> (case map_of kvs (ascii ''profiles'') of None \<Rightarrow> PList [] | Some v \<Rightarrow> v)
      | _ \<Rightarrow> PList [])"
  by (simp add: reply_def extract_profiles_with_openai_def split: option.splits pyval.splits)

text \<open>A reply with a \<open>profiles\<close> entry is answered with that entry, whatever it holds.\<close>

lemma profiles_entry_returned:
  "reply w text = Some (PDict kvs) \<Longrightarrow> map_of kvs (ascii ''profiles'') = Some v \<Longrightarrow>
     fst (extract_profiles_with_openai w text) = v"
  by (simp add: extract_by_reply)


lemma crawl_loop_stops:
  assumes "crawl_loop w max_pages ps = Some ps'"
  shows "\<not> loop_cond max_pages ps'"
proof (rule crawl_loop.raw_induct [where P = "\<lambda>w m ps ps'. \<not> loop_cond m ps'", OF _ assms])
  fix f :: "env \<Rightarrow> int \<Rightarrow> int \<times> scraper \<Rightarrow> (int \<times> scraper) option"
  fix w m ps y
  assume IH: "\<And>w m ps y. f w m ps = Some y \<Longrightarrow> \<not> loop_cond m y"
  assume eq: "(if loop_cond m ps then f w m (loop_body w ps) else Some ps) = Some y"
  show "\<not> loop_cond m y"
  proof (cases "loop_cond m ps")
    case True
    with eq have "f w m (loop_body w ps) = Some y" by simp
    then show ?thesis by (rule IH)
  next
    case False
    with eq show ?thesis by simp
  qed
qed

text \<open>Whether a page succeeds does not depend on the state.\<close>

lemma extract_links_fst:
  "fst (extract_links w links cur s) = (\<forall>h \<in> set links. urljoin w cur h \<noteq> None)"
  by (induction links arbitrary: s) (auto split: option.splits)

lemma py_extend_none: "py_extend ps v = None \<longleftrightarrow> py_extend [] v = None"
  by (cases v) simp_all

lemma scrape_page_succeeds: "fst (scrape_page w url s) = page_succeeds w url"
proof (cases "http_get w url")
  case None
  then show ?thesis by (simp add: scrape_page_def page_succeeds_def)
next
  case (Some pg)
  let ?v = "fst (extract_profiles_with_openai w (clean_text (page_text pg)))"
  show ?thesis
  proof (cases "py_extend (profiles s) ?v")
    case None
    then have "py_extend [] ?v = None" using py_extend_none by blast
    with None Some show ?thesis by (simp add: scrape_page_def page_succeeds_def)
  next
    case (Some ps)
    then have "py_extend [] ?v \<noteq> None" using py_extend_none [of "profiles s" ?v] by simp
    with Some \<open>http_get w url = Some pg\<close> show ?thesis
      by (simp add: scrape_page_def page_succeeds_def extract_links_fst list_all_iff)
  qed
qed




text \<open>The counter of the loop is the number of dequeued URLs whose page succeeded.\<close>

lemma reachable_counter:
  "reachable w max_pages base ps \<Longrightarrow>
     fst ps = int (length (filter (page_succeeds w) (popped (snd ps))))"
proof (induction rule: reachable.induct)
  case start
  show ?case by (simp add: enqueue_base_def new_scraper_def)
next
  case (iterate ps)
  obtain n s where ps: "ps = (n, s)" by (cases ps)
  from iterate(2) ps obtain u rest where q: "urls_to_visit s = u # rest"
    by (cases "urls_to_visit s") (auto simp: loop_cond_def)
  from reachable_inv [OF iterate(1)] ps have "frontier_inv w base s" by simp
  from inv_head_fresh [OF this q] have nv: "u \<notin> visited_urls s" by simp
  note f = loop_body_fresh [OF q nv, of w n]
  from f(1) f(4) iterate(3) ps show ?case
    by (simp add: scrape_page_succeeds)
qed

section \<open>Termination when link discovery never raises\<close>

lemma scrape_page_failure_unchanged:
  assumes j: "\<And>pg h. http_get w url = Some pg \<Longrightarrow> h \<in> set (hrefs pg) \<Longrightarrow> urljoin w url h \<noteq> None"
    and f: "\<not> fst (scrape_page w url s)"
  shows "snd (scrape_page w url s) = s"
proof (cases "http_get w url")
  case None
  then show ?thesis by (simp add: scrape_page_def)
next
  case (Some pg)
  show ?thesis
  proof (cases "py_extend (profiles s) (fst (extract_profiles_with_openai w (clean_text (page_text pg))))")
    case None
    with Some show ?thesis by (simp add: scrape_page_def)
  next
    case (Some ps)
    with \<open>http_get w url = Some pg\<close>
    have "scrape_page w url s = extract_links w (hrefs pg) url (s\<lparr>profiles := ps\<rparr>)"
      by (simp add: scrape_page_def)
    moreover have "fst (extract_links w (hrefs pg) url (s\<lparr>profiles := ps\<rparr>))"
      using j [OF \<open>http_get w url = Some pg\<close>] by (intro extract_links_completes) simp
    ultimately show ?thesis using f by simp
  qed
qed

lemma loop_body_progress:
  assumes j: "\<And>url pg h. http_get w url = Some pg \<Longrightarrow> h \<in> set (hrefs pg) \<Longrightarrow> urljoin w url h \<noteq> None"
    and c: "loop_cond max_pages ps"
  shows "fst (loop_body w ps) = fst ps + 1 \<or>
         (fst (loop_body w ps) = fst ps \<and>
          length (urls_to_visit (snd (loop_body w ps))) < length (urls_to_visit (snd ps)))"
proof -
  obtain n s where ps: "ps = (n, s)" by (cases ps)
  from c ps obtain u rest where q: "urls_to_visit s = u # rest"
    by (cases "urls_to_visit s") (auto simp: loop_cond_def)
  show ?thesis
  proof (cases "u \<in> visited_urls s")
    case True
    with q ps show ?thesis by (simp add: loop_body_def Let_def)
  next
    case False
    let ?s2 = "s\<lparr>urls_to_visit := rest, popped := popped s @ [u],
                  visited_urls := insert u (visited_urls s)\<rparr>"
    note f = loop_body_fresh [OF q False, of w n]
    show ?thesis
    proof (cases "fst (scrape_page w u ?s2)")
      case True
      with f(1) ps show ?thesis by simp
    next
      case False
      have "snd (scrape_page w u ?s2) = ?s2"
        using j False by (intro scrape_page_failure_unchanged) simp_all
      with f(1) f(5) False q ps show ?thesis by simp
    qed
  qed
qed

lemma crawl_loop_terminates:
  assumes j: "\<And>url pg h. http_get w url = Some pg \<Longrightarrow> h \<in> set (hrefs pg) \<Longrightarrow> urljoin w url h \<noteq> None"
  shows "\<exists>ps'. crawl_loop w max_pages ps = Some ps'"
proof (induction ps rule: wf_induct_rule
    [OF wf_measures [of "[\<lambda>ps. nat (max_pages - fst ps), \<lambda>ps. length (urls_to_visit (snd ps))]"]])
  case (1 ps)
  show ?case
  proof (cases "loop_cond max_pages ps")
    case False
    then have "crawl_loop w max_pages ps = Some ps" by (subst crawl_loop.simps) simp
    then show ?thesis by blast
  next
    case True
    then have lt: "fst ps < max_pages" by (simp add: loop_cond_def)
    from loop_body_progress [OF j True] lt
    have "(loop_body w ps, ps) \<in>
        measures [\<lambda>ps. nat (max_pages - fst ps), \<lambda>ps. length (urls_to_visit (snd ps))]"
      by auto
    from 1 [OF this] obtain ps' where "crawl_loop w max_pages (loop_body w ps) = Some ps'" by blast
    with True have "crawl_loop w max_pages ps = Some ps'" by (subst crawl_loop.simps) simp
    then show ?thesis by blast
  qed
qed

section \<open>The example sites\<close>

lemma example_urls_distinct:
  "distinct [example_base, example_about, example_other, bare_host, bad_href]"
  by (simp add: example_base_def example_about_def example_other_def bare_host_def
      bad_href_def ascii_def)

lemma example_urls_neq:
  "example_about \<noteq> example_base" "example_other \<noteq> example_base"
  "example_other \<noteq> example_about" "bare_host \<noteq> example_base" "bare_host \<noteq> example_about"
  "bare_host \<noteq> example_other" "bad_href \<noteq> example_base" "bad_href \<noteq> example_about"
  "bad_href \<noteq> example_other" "bad_href \<noteq> bare_host"
  "example_base \<noteq> example_about" "example_base \<noteq> example_other"
  "example_about \<noteq> example_other" "example_about \<noteq> bad_href" "example_other \<noteq> bad_href"
  using example_urls_distinct by auto

lemma schemes:
  "ascii ''http'' \<noteq> []" "ascii ''https'' \<noteq> []" "[] \<noteq> ascii ''http''" "[] \<noteq> ascii ''https''"
  "ascii ''example.com'' \<noteq> ascii ''other.com''"
  "ascii ''other.com'' \<noteq> ascii ''example.com''"
  by (simp_all add: ascii_def)

lemma example_urlparse_values:
  "example_urlparse example_base = Some \<lparr>scheme = ascii ''http'', netloc = ascii ''example.com''\<rparr>"
  "example_urlparse example_about = Some \<lparr>scheme = ascii ''http'', netloc = ascii ''example.com''\<rparr>"
  "example_urlparse example_other = Some \<lparr>scheme = ascii ''http'', netloc = ascii ''other.com''\<rparr>"
  "example_urlparse bare_host = Some \<lparr>scheme = [], netloc = []\<rparr>"
  "example_urlparse bad_href = None"
  by (simp_all add: example_urlparse_def example_urls_neq)

lemma example_admission:
  "urlparse w = example_urlparse \<Longrightarrow> base_url s = example_base \<Longrightarrow> is_valid_url w s example_about"
  "urlparse w = example_urlparse \<Longrightarrow> base_url s = example_base \<Longrightarrow> \<not> is_valid_url w s example_other"
  "urlparse w = example_urlparse \<Longrightarrow> base_url s = example_base \<Longrightarrow> \<not> is_valid_url w s bad_href"
  "urlparse w = example_urlparse \<Longrightarrow> base_url s = bare_host \<Longrightarrow> \<not> is_valid_url w s bare_host"
  by (simp_all add: is_valid_url_def example_urlparse_values schemes)

lemma clean_ada: "clean_text (ascii ''Ada  Lovelace'') = []"
  by (simp add: clean_text_collapsed py_split_def isspace_def ascii_def)


lemma example_extract_ada:
  "fst (extract_profiles_with_openai example_site text) =
     PList [PDict [(ascii ''name'', PStr (ascii ''Ada'')), (ascii ''about'', PStr (ascii ''A pioneer''))]]"
  by (simp add: extract_profiles_with_openai_def example_site_def ada_chat_def example_json_loads_def)


text \<open>Link discovery on the page of \<open>example_base\<close>, for any of the three example sites.\<close>

lemma example_links:
  assumes "urlparse w = example_urlparse" and "urljoin w = example_urljoin"
    and "base_url s = example_base" and "example_about \<notin> visited_urls s"
    and "example_about \<notin> set (urls_to_visit s)"
  shows "extract_links w [example_about, example_other] example_base s =
           (True, s\<lparr>urls_to_visit := urls_to_visit s @ [example_about]\<rparr>)"
  using assms
  by (simp add: example_urljoin_def example_urls_neq example_admission is_valid_url_update)

lemma example_scrape_base:
  assumes w: "http_get w = example_http_get" "urlparse w = example_urlparse"
      "urljoin w = example_urljoin"
    and x: "fst (extract_profiles_with_openai w []) = PList xs"
    and s: "base_url s = example_base" "example_about \<notin> visited_urls s"
      "example_about \<notin> set (urls_to_visit s)"
  shows "scrape_page w example_base s =
           (True, s\<lparr>profiles := profiles s @ xs, urls_to_visit := urls_to_visit s @ [example_about]\<rparr>)"
proof -
  have "scrape_page w example_base s =
      extract_links w [example_about, example_other] example_base (s\<lparr>profiles := profiles s @ xs\<rparr>)"
    using w(1) x by (simp add: scrape_page_def example_http_get_def clean_ada)
  also have "\<dots> = (True, s\<lparr>profiles := profiles s @ xs, urls_to_visit := urls_to_visit s @ [example_about]\<rparr>)"
    using example_links [OF w(2,3), of "s\<lparr>profiles := profiles s @ xs\<rparr>"] s by simp
  finally show ?thesis .
qed

lemma example_site_fields:
  "http_get example_site = example_http_get" "urlparse example_site = example_urlparse"
  "urljoin example_site = example_urljoin"
  "http_get example_site_no_llm = example_http_get" "urlparse example_site_no_llm = example_urlparse"
  "urljoin example_site_no_llm = example_urljoin"
  "http_get example_site_odd_reply = example_http_get"
  "urlparse example_site_odd_reply = example_urlparse"
  "urljoin example_site_odd_reply = example_urljoin"
  by (simp_all add: example_site_def example_site_no_llm_def example_site_odd_reply_def)

lemma example_first_iteration:
  assumes w: "http_get w = example_http_get" "urlparse w = example_urlparse"
      "urljoin w = example_urljoin"
    and x: "fst (extract_profiles_with_openai w []) = PList xs"
  shows "loop_body w (enqueue_base (new_scraper example_base)) =
     (1, \<lparr>base_url = example_base, visited_urls = {example_base},
          urls_to_visit = [example_about], profiles = xs, saved = [],
          popped = [example_base]\<rparr>)"
proof -
  let ?s2 = "\<lparr>base_url = example_base, visited_urls = {example_base},
          urls_to_visit = [], profiles = [], saved = [], popped = [example_base]\<rparr>"
  have "scrape_page w example_base ?s2 =
      (True, ?s2\<lparr>profiles := profiles ?s2 @ xs, urls_to_visit := urls_to_visit ?s2 @ [example_about]\<rparr>)"
    by (rule example_scrape_base [OF w x]) (simp_all add: example_urls_neq)
  then show ?thesis
    by (simp add: loop_body_def enqueue_base_def new_scraper_def Let_def)
qed

lemma example_second_iteration:
  assumes w: "http_get w = example_http_get"
  shows "loop_body w
     (1, \<lparr>base_url = example_base, visited_urls = {example_base},
          urls_to_visit = [example_about], profiles = xs, saved = [],
          popped = [example_base]\<rparr>) =
     (1, \<lparr>base_url = example_base, visited_urls = {example_about, example_base},
          urls_to_visit = [], profiles = xs, saved = [],
          popped = [example_base, example_about]\<rparr>)"
  using w
  by (simp add: loop_body_def Let_def scrape_page_def example_http_get_def example_urls_neq)

lemma example_reachable_1:
  "reachable example_site 50 example_base
     (1, \<lparr>base_url = example_base, visited_urls = {example_base},
          urls_to_visit = [example_about],
          profiles = [PDict [(ascii ''name'', PStr (ascii ''Ada'')),
                             (ascii ''about'', PStr (ascii ''A pioneer''))]],
          saved = [], popped = [example_base]\<rparr>)"
proof -
  have "loop_cond 50 (enqueue_base (new_scraper example_base))"
    by (simp add: loop_cond_def enqueue_base_def new_scraper_def)
  from reachable.iterate [OF reachable.start this, of example_site]
  show ?thesis
    by (simp add: example_first_iteration [OF example_site_fields(1,2,3) example_extract_ada])
qed

lemma example_crawl:
  "scrape_website example_site 50 (new_scraper example_base) =
     Some \<lparr>base_url = example_base, visited_urls = {example_about, example_base},
           urls_to_visit = [],
           profiles = [PDict [(ascii ''name'', PStr (ascii ''Ada'')),
                              (ascii ''about'', PStr (ascii ''A pioneer''))]],
           saved = [PDict [(ascii ''profiles'',
                      PList [PDict [(ascii ''name'', PStr (ascii ''Ada'')),
                                    (ascii ''about'', PStr (ascii ''A pioneer''))]])]],
           popped = [example_base, example_about]\<rparr>"
proof -
  let ?ada = "[PDict [(ascii ''name'', PStr (ascii ''Ada'')),
                      (ascii ''about'', PStr (ascii ''A pioneer''))]]"
  let ?s1 = "\<lparr>base_url = example_base, visited_urls = {example_base},
          urls_to_visit = [example_about], profiles = ?ada, saved = [],
          popped = [example_base]\<rparr>"
  let ?s2 = "\<lparr>base_url = example_base, visited_urls = {example_about, example_base},
          urls_to_visit = [], profiles = ?ada, saved = [],
          popped = [example_base, example_about]\<rparr>"
  have 1: "loop_body example_site (enqueue_base (new_scraper example_base)) = (1, ?s1)"
    by (rule example_first_iteration [OF example_site_fields(1,2,3) example_extract_ada])
  have 2: "loop_body example_site (1, ?s1) = (1, ?s2)"
    by (rule example_second_iteration [OF example_site_fields(1)])
  have "crawl_loop example_site 50 (1, ?s2) = Some (1, ?s2)"
    by (subst crawl_loop.simps) (simp add: loop_cond_def)
  then have "crawl_loop example_site 50 (1, ?s1) = Some (1, ?s2)"
    by (subst crawl_loop.simps) (simp add: loop_cond_def 2)
  moreover have "loop_cond 50 (enqueue_base (new_scraper example_base))"
    by (simp add: loop_cond_def enqueue_base_def new_scraper_def)
  ultimately
  have "crawl_loop example_site 50 (enqueue_base (new_scraper example_base)) = Some (1, ?s2)"
    by (subst crawl_loop.simps) (simp add: 1)
  then show ?thesis
    by (simp add: scrape_website_def save_data_def)
qed


lemma example_base_page:
  "example_http_get example_base =
     Some \<lparr>page_text = ascii ''Ada  Lovelace'', hrefs = [example_about, example_other]\<rparr>"
  "example_http_get example_about = None"
  by (simp_all add: example_http_get_def example_urls_neq)

lemma example_about_iteration:
  "loop_body example_site (enqueue_base (new_scraper example_about)) =
     (0, \<lparr>base_url = example_about, visited_urls = {example_about}, urls_to_visit = [],
          profiles = [], saved = [PDict [(ascii ''profiles'', PList [])]],
          popped = [example_about]\<rparr>)"
  by (simp add: loop_body_def enqueue_base_def new_scraper_def Let_def scrape_page_def
      example_site_fields example_base_page save_data_def)





section \<open>The site without end\<close>

lemma endless_base_length: "length endless_base = 9"
  by (simp add: endless_base_def ascii_def)

lemma endless_urlparse_prefix:
  "endless_urlparse (endless_base @ xs) = Some \<lparr>scheme = ascii ''http'', netloc = ascii ''h''\<rparr>"
  by (simp add: endless_urlparse_def endless_base_length)

lemma endless_admits:
  "base_url s = endless_base \<Longrightarrow> is_valid_url endless_site s (endless_base @ xs)"
  using endless_urlparse_prefix [of "[]"] endless_urlparse_prefix [of xs]
  by (simp add: is_valid_url_def endless_site_def)

lemma not_bad_href: "xs @ [97] \<noteq> bad_href"
proof
  assume "xs @ [97] = bad_href"
  then have "last (xs @ [97]) = last bad_href" by simp
  then show False by (simp add: bad_href_def ascii_def)
qed

lemma clean_empty: "clean_text [] = []"
  by (simp add: clean_text_collapsed py_split_def)

lemma endless_scrape:
  assumes "base_url s = endless_base" and "urls_to_visit s = []"
    and "endless_base @ xs @ [97] \<notin> visited_urls s"
  shows "fst (scrape_page endless_site (endless_base @ xs) s) = False"
    and "urls_to_visit (snd (scrape_page endless_site (endless_base @ xs) s)) =
           [endless_base @ xs @ [97]]"
proof -
  let ?u = "endless_base @ xs"
  have e: "fst (extract_profiles_with_openai endless_site []) = PList []"
    by (simp add: extract_profiles_with_openai_def endless_site_def failing_chat_def)
  have v: "is_valid_url endless_site (s\<lparr>profiles := profiles s\<rparr>) (endless_base @ xs @ [97])"
    using assms(1) by (simp add: endless_admits)
  have j: "urljoin endless_site ?u (?u @ [97]) = Some (?u @ [97])"
    using not_bad_href [of ?u] by (simp add: endless_site_def example_urljoin_def)
  have b: "urljoin endless_site ?u bad_href = None"
    by (simp add: endless_site_def example_urljoin_def)
  have "scrape_page endless_site ?u s =
      extract_links endless_site [?u @ [97], bad_href] ?u (s\<lparr>profiles := profiles s\<rparr>)"
    using e by (simp add: scrape_page_def endless_site_def endless_http_get_def clean_empty)
  also have "\<dots> = (False, s\<lparr>profiles := profiles s, urls_to_visit := [endless_base @ xs @ [97]]\<rparr>)"
    using v j b assms(2,3) by simp
  finally have r: "scrape_page endless_site ?u s =
      (False, s\<lparr>profiles := profiles s, urls_to_visit := [endless_base @ xs @ [97]]\<rparr>)" .
  show "fst (scrape_page endless_site (endless_base @ xs) s) = False" by (simp add: r)
  show "urls_to_visit (snd (scrape_page endless_site (endless_base @ xs) s)) =
           [endless_base @ xs @ [97]]"
    by (simp add: r)
qed

lemma endless_step:
  assumes "endless_inv ps"
  shows "loop_cond 50 ps" and "endless_inv (loop_body endless_site ps)"
proof -
  obtain p s where ps: "ps = (p, s)" by (cases ps)
  from assms ps obtain n where p: "p = 0" and b: "base_url s = endless_base"
    and q: "urls_to_visit s = [endless_base @ replicate n 97]"
    and v: "visited_urls s = (\<lambda>k. endless_base @ replicate k 97) ` {..<n}"
    by (auto simp: endless_inv_def)
  show "loop_cond 50 ps" using ps p q by (simp add: loop_cond_def)
  let ?u = "endless_base @ replicate n 97"
  have nv: "?u \<notin> visited_urls s" using v by auto
  let ?s2 = "s\<lparr>urls_to_visit := [], popped := popped s @ [?u],
                visited_urls := insert ?u (visited_urls s)\<rparr>"
  note f = loop_body_fresh [OF q nv, of endless_site p]
  have fresh: "endless_base @ replicate n 97 @ [97] \<notin> visited_urls ?s2"
  proof
    assume "endless_base @ replicate n 97 @ [97] \<in> visited_urls ?s2"
    then obtain k where "k \<le> n" and "replicate n 97 @ [97::nat] = replicate k 97"
      using v by auto
    then have "length (replicate n 97 @ [97::nat]) = length (replicate k (97::nat))" by simp
    with \<open>k \<le> n\<close> show False by simp
  qed
  have sp: "fst (scrape_page endless_site ?u ?s2) = False"
      "urls_to_visit (snd (scrape_page endless_site ?u ?s2)) = [?u @ [97]]"
    using endless_scrape [of ?s2 "replicate n 97"] b fresh by simp_all
  have 1: "fst (loop_body endless_site (p, s)) = 0" using f(1) sp(1) p by simp
  have 2: "base_url (snd (loop_body endless_site (p, s))) = endless_base" using f(2) b by simp
  have 3: "urls_to_visit (snd (loop_body endless_site (p, s))) = [endless_base @ replicate (Suc n) 97]"
    using f(5) sp(2) by (simp add: replicate_append_same)
  have 4: "visited_urls (snd (loop_body endless_site (p, s))) =
      (\<lambda>k. endless_base @ replicate k 97) ` {..<Suc n}"
    using f(3) v by (simp add: lessThan_Suc)
  from 1 2 3 4 show "endless_inv (loop_body endless_site ps)"
    unfolding endless_inv_def ps by blast
qed

lemma endless_loop_imp:
  assumes "crawl_loop w m ps = Some y"
  shows "w = endless_site \<and> m = 50 \<longrightarrow> \<not> endless_inv ps"
proof (rule crawl_loop.raw_induct
    [where P = "\<lambda>w m ps y. w = endless_site \<and> m = 50 \<longrightarrow> \<not> endless_inv ps", OF _ assms])
  fix f :: "env \<Rightarrow> int \<Rightarrow> int \<times> scraper \<Rightarrow> (int \<times> scraper) option"
  fix w m ps y
  assume IH: "\<And>w m ps y. f w m ps = Some y \<Longrightarrow> w = endless_site \<and> m = 50 \<longrightarrow> \<not> endless_inv ps"
  assume eq: "(if loop_cond m ps then f w m (loop_body w ps) else Some ps) = Some y"
  show "w = endless_site \<and> m = 50 \<longrightarrow> \<not> endless_inv ps"
  proof (intro impI notI)
    assume wm: "w = endless_site \<and> m = 50" and inv: "endless_inv ps"
    from endless_step [OF inv] wm eq have "f w m (loop_body w ps) = Some y" by simp
    from IH [OF this] wm have "\<not> endless_inv (loop_body endless_site ps)" by simp
    with endless_step(2) [OF inv] show False by simp
  qed
qed

lemma endless_loop: "endless_inv ps \<Longrightarrow> crawl_loop endless_site 50 ps = None"
  using endless_loop_imp [of endless_site 50 ps] by (cases "crawl_loop endless_site 50 ps") auto

section \<open>The chain of pages\<close>

lemma chain_extract: "fst (extract_profiles_with_openai chain_site text) = PList [ada_record]"
  by (simp add: extract_profiles_with_openai_def chain_site_def ada_chat_def
      example_json_loads_def ada_record_def)

lemma chain_url_Suc: "chain_url n @ [97] = chain_url (Suc n)"
  by (simp add: chain_url_def replicate_append_same)

lemma chain_url_inj: "chain_url m = chain_url n \<longleftrightarrow> m = n"
proof
  assume "chain_url m = chain_url n"
  then have "length (chain_url m) = length (chain_url n)" by simp
  then show "m = n" by (simp add: chain_url_def)
qed simp

lemma chain_admits: "base_url s = endless_base \<Longrightarrow> is_valid_url chain_site s (chain_url n)"
  using endless_urlparse_prefix [of "[]"] endless_urlparse_prefix [of "replicate n 97"]
  by (simp add: is_valid_url_def chain_site_def chain_url_def)

lemma chain_page_succeeds: "page_succeeds chain_site (chain_url n)"
proof -
  have "http_get chain_site (chain_url n) = Some \<lparr>page_text = [], hrefs = [chain_url n @ [97]]\<rparr>"
    by (simp add: chain_site_def chain_http_get_def)
  moreover have "urljoin chain_site (chain_url n) (chain_url n @ [97]) \<noteq> None"
    using not_bad_href [of "chain_url n"] by (simp add: chain_site_def example_urljoin_def)
  ultimately show ?thesis
    by (simp add: page_succeeds_def chain_extract)
qed

lemma chain_scrape:
  assumes "base_url s = endless_base" and "urls_to_visit s = []"
    and "chain_url (Suc n) \<notin> visited_urls s"
  shows "scrape_page chain_site (chain_url n) s =
           (True, s\<lparr>profiles := profiles s @ [ada_record], urls_to_visit := [chain_url (Suc n)]\<rparr>)"
proof -
  let ?u = "chain_url n"
  have g: "http_get chain_site ?u = Some \<lparr>page_text = [], hrefs = [?u @ [97]]\<rparr>"
    by (simp add: chain_site_def chain_http_get_def)
  have j: "urljoin chain_site ?u (chain_url (Suc n)) = Some (chain_url (Suc n))"
    using not_bad_href [of ?u] by (simp add: chain_site_def example_urljoin_def chain_url_Suc)
  have v: "is_valid_url chain_site (s\<lparr>profiles := profiles s @ [ada_record]\<rparr>) (chain_url (Suc n))"
    using assms(1) by (simp add: chain_admits)
  have "scrape_page chain_site ?u s =
      extract_links chain_site [chain_url (Suc n)] ?u (s\<lparr>profiles := profiles s @ [ada_record]\<rparr>)"
    using g by (simp add: scrape_page_def clean_empty chain_extract chain_url_Suc)
  also have "\<dots> = (True, s\<lparr>profiles := profiles s @ [ada_record], urls_to_visit := [chain_url (Suc n)]\<rparr>)"
    using j v assms(2,3) by simp
  finally show ?thesis .
qed

text \<open>One iteration on the chain, with the state before the save that may end it.\<close>

lemma chain_iteration:
  "loop_body chain_site (chain_state n) =
     (int n + 1,
      (if (int n + 1) mod 10 = 0 then save_data else id) (snd (chain_state (Suc n))))"
proof -
  let ?s = "snd (chain_state n)"
  let ?s2 = "?s\<lparr>urls_to_visit := [], popped := popped ?s @ [chain_url n],
                visited_urls := insert (chain_url n) (visited_urls ?s)\<rparr>"
  have fresh: "chain_url (Suc n) \<notin> visited_urls ?s2"
    by (auto simp: chain_state_def chain_url_inj)
  have sp: "scrape_page chain_site (chain_url n) ?s2 =
      (True, ?s2\<lparr>profiles := profiles ?s2 @ [ada_record], urls_to_visit := [chain_url (Suc n)]\<rparr>)"
    by (rule chain_scrape) (simp_all add: chain_state_def fresh [simplified chain_state_def, simplified])
  have nv: "chain_url n \<notin> visited_urls ?s"
    by (auto simp: chain_state_def chain_url_inj)
  have "?s2\<lparr>profiles := profiles ?s2 @ [ada_record], urls_to_visit := [chain_url (Suc n)]\<rparr> =
      snd (chain_state (Suc n))"
    by (simp add: chain_state_def lessThan_Suc replicate_append_same)
  with sp have sp': "scrape_page chain_site (chain_url n) ?s2 = (True, snd (chain_state (Suc n)))"
    by simp
  have "loop_body chain_site (int n, ?s) =
     (int n + 1,
      (if (int n + 1) mod 10 = 0 then save_data else id) (snd (chain_state (Suc n))))"
    using nv sp' by (simp add: loop_body_def Let_def chain_state_def)
  moreover have "chain_state n = (int n, ?s)" by (simp add: chain_state_def)
  ultimately show ?thesis by simp
qed

lemma chain_step: "n < 9 \<Longrightarrow> loop_body chain_site (chain_state n) = chain_state (Suc n)"
proof -
  assume "n < 9"
  then have "(int n + 1) mod 10 \<noteq> 0" by presburger
  then show ?thesis
    by (simp add: chain_iteration) (simp add: chain_state_def)
qed

lemma chain_cond: "n < 10 \<Longrightarrow> loop_cond 10 (chain_state n)"
  by (simp add: loop_cond_def chain_state_def)

lemma chain_reachable: "n \<le> 9 \<Longrightarrow> reachable chain_site 10 endless_base (chain_state n)"
proof (induction n)
  case 0
  have "chain_state 0 = enqueue_base (new_scraper endless_base)"
    by (simp add: chain_state_def enqueue_base_def new_scraper_def chain_url_def)
  then show ?case by (simp add: reachable.start)
next
  case (Suc n)
  then have r: "reachable chain_site 10 endless_base (chain_state n)" and n: "n < 9" by simp_all
  from reachable.iterate [OF r chain_cond] n show ?case by (simp add: chain_step)
qed

lemma chain_tenth:
  "loop_body chain_site (chain_state 9) = (10, save_data (snd (chain_state 10)))"
  using chain_iteration [of 9] by simp

lemma chain_crawl_from:
  "n \<le> 9 \<Longrightarrow>
     crawl_loop chain_site 10 (chain_state (9 - n)) = Some (10, save_data (snd (chain_state 10)))"
proof (induction n)
  case 0
  have "crawl_loop chain_site 10 (10, save_data (snd (chain_state 10))) =
      Some (10, save_data (snd (chain_state 10)))"
    by (subst crawl_loop.simps) (simp add: loop_cond_def)
  then show ?case
    by (subst crawl_loop.simps) (simp add: chain_cond chain_tenth)
next
  case (Suc n)
  then have "9 - Suc n < 9" and "Suc (9 - Suc n) = 9 - n" by simp_all
  with Suc show ?case
    by (subst crawl_loop.simps) (simp add: chain_cond chain_step)
qed

lemma chain_crawl:
  "scrape_website chain_site 10 (new_scraper endless_base) =
     Some (save_data (save_data (snd (chain_state 10))))"
proof -
  have "chain_state 0 = enqueue_base (new_scraper endless_base)"
    by (simp add: chain_state_def enqueue_base_def new_scraper_def chain_url_def)
  with chain_crawl_from [of 9] show ?thesis
    by (simp add: scrape_website_def)
qed

section \<open>The claims about cleaning\<close>

text \<open>
  C10. The output of \<open>clean_text\<close> never contains a newline (code point 10): the join on
  single spaces has already replaced every line break, so the split on newlines yields the
  whole collapsed text as its only line, and the result is that text when its stripped length
  exceeds 30 and the empty string otherwise.
\<close>

theorem clean_text_single_line:
  "clean_text text =
     (if 30 < length (py_strip (py_join [32] (py_split text)))
      then py_join [32] (py_split text) else []) \<and>
   10 \<notin> set (clean_text text)"
proof -
  let ?t = "py_join [32] (py_split text)"
  have "py_strip ?t = ?t"
    using join_ends [OF py_split_spaceless, of "text"] by (rule py_strip_id)
  moreover have "10 \<notin> set ?t"
    by (rule join_no_newline [OF py_split_spaceless])
  ultimately show ?thesis
    by (simp add: clean_text_collapsed)
qed

text \<open>
  C9. Cleaning is idempotent: the result of \<open>clean_text\<close> is the collapsed text or the
  empty string, and \<open>clean_text\<close> maps each of the two to itself.
\<close>

theorem clean_text_idempotent: "clean_text (clean_text text) = clean_text text"
proof (cases "30 < length (py_join [32] (py_split text))")
  case True
  then show ?thesis by (simp add: clean_text_collapsed collapse_idem)
next
  case False
  then have "clean_text text = []" by (simp add: clean_text_collapsed)
  moreover have "clean_text [] = []" by (simp add: clean_text_collapsed py_split_def)
  ultimately show ?thesis by simp
qed

text \<open>
  C4, as stated, fails on a line of exactly 30 characters: the text of thirty letters \<open>a\<close>
  (code point 97) is one line of length 30, and the filter \<open>len(line.strip()) > 30\<close>
  drops it.
\<close>

theorem clean_text_thirty_counterexample:
  "py_split_sep 10 (py_join [32] (py_split (replicate 30 97))) = [replicate 30 97] \<and>
   length (replicate 30 (97::nat)) = 30 \<and>
   clean_text (replicate 30 97) = []"
proof -
  have "py_split (replicate 30 97) = [replicate 30 97]"
    using split_words_letters [of 30 "[]"] by (simp add: py_split_def)
  then show ?thesis
    by (simp add: clean_text_collapsed py_split_sep_def split_at_absent)
qed

text \<open>
  C4, amended. \<open>clean_text\<close> joins the whitespace-free words of the text with single
  spaces (so leading and trailing whitespace goes too, and the words are exactly the
  non-whitespace characters of the text in order), splits on newlines, keeps the lines of 31
  or more characters, drops those of 30 or fewer, and joins the survivors with newlines.
\<close>

theorem clean_text_filter:
  "clean_text text =
     py_join [10] (filter (\<lambda>line. 31 \<le> length line)
       (py_split_sep 10 (py_join [32] (py_split text)))) \<and>
   spaceless (py_split text) \<and>
   concat (py_split text) = filter (\<lambda>c. \<not> isspace c) text"
proof -
  let ?t = "py_join [32] (py_split text)"
  have "py_split_sep 10 ?t = [?t]"
    using join_no_newline [OF py_split_spaceless, of "text"]
    by (simp add: py_split_sep_def split_at_absent)
  then have "clean_text text = py_join [10] (filter (\<lambda>line. 31 \<le> length line) (py_split_sep 10 ?t))"
    by (simp add: clean_text_collapsed Suc_le_eq)
  moreover have "concat (py_split text) = filter (\<lambda>c. \<not> isspace c) text"
    by (simp add: py_split_def concat_split_words)
  ultimately show ?thesis
    using py_split_spaceless [of "text"] by simp
qed

text \<open>
  An instance: 31 letters \<open>a\<close>, then space, tab, newline, \<open>bb\<close> and a space.
\<close>

theorem clean_text_filter_witness:
  "clean_text (replicate 31 97 @ [32, 9, 10, 98, 98, 32]) = replicate 31 97 @ [32, 98, 98] \<and>
   py_split (replicate 31 97 @ [32, 9, 10, 98, 98, 32]) = [replicate 31 97, [98, 98]] \<and>
   spaceless [replicate 31 97, [98, 98]]"
proof -
  have w: "py_split (replicate 31 97 @ [32, 9, 10, 98, 98, 32]) = [replicate 31 97, [98, 98]]"
    using split_words_letters [of 31 "[32, 9, 10, 98, 98, 32]"]
    by (simp add: py_split_def isspace_def)
  have "py_split_sep 10 (replicate 31 97 @ [32, 98, 98]) = [replicate 31 97 @ [32, 98, 98]]"
    by (simp add: py_split_sep_def split_at_absent)
  with w show ?thesis
    using clean_text_filter [of "replicate 31 97 @ [32, 9, 10, 98, 98, 32]"] by simp
qed

section \<open>The claims about the crawl\<close>

text \<open>
  C1. At the head of every iteration of a crawl started from a fresh scraper, the queue has
  no duplicates and shares no URL with the visited set, the URLs dequeued so far are
  pairwise different and are exactly the visited ones, and the URL about to be dequeued
  has not been visited, so the iteration processes it and adds it to the visited set. A
  visited URL therefore stays out of the queue for the rest of the run, and no URL is
  dequeued or processed twice.
\<close>

theorem frontier_disjoint:
  "(reachable w max_pages base ps \<longrightarrow>
     distinct (urls_to_visit (snd ps)) \<and>
     set (urls_to_visit (snd ps)) \<inter> visited_urls (snd ps) = {} \<and>
     distinct (popped (snd ps)) \<and>
     set (popped (snd ps)) = visited_urls (snd ps) \<and>
     (loop_cond max_pages ps \<longrightarrow>
        hd (urls_to_visit (snd ps)) \<notin> visited_urls (snd ps) \<and>
        visited_urls (snd (loop_body w ps)) =
          insert (hd (urls_to_visit (snd ps))) (visited_urls (snd ps)))) \<and>
   (scrape_website w max_pages (new_scraper base) = Some s' \<longrightarrow>
     distinct (urls_to_visit s') \<and>
     set (urls_to_visit s') \<inter> visited_urls s' = {} \<and>
     distinct (popped s') \<and>
     set (popped s') = visited_urls s')"
proof (intro conjI impI)
  assume a: "scrape_website w max_pages (new_scraper base) = Some s'"
  then obtain ps' where l: "crawl_loop w max_pages (enqueue_base (new_scraper base)) = Some ps'"
    and s': "s' = save_data (snd ps')"
    by (auto simp: scrape_website_def split: option.splits)
  from crawl_loop_reachable [OF l reachable.start] have "frontier_inv w base (snd ps')"
    using reachable_inv by blast
  then have inv: "frontier_inv w base s'"
    using s' by (simp add: frontier_inv_save)
  from inv show "distinct (urls_to_visit s')" by (simp add: frontier_inv_def)
  from inv show "set (urls_to_visit s') \<inter> visited_urls s' = {}" by (simp add: frontier_inv_def)
  from inv show "distinct (popped s')" by (simp add: frontier_inv_def)
  from inv show "set (popped s') = visited_urls s'" by (simp add: frontier_inv_def)
next
  assume r: "reachable w max_pages base ps"
  then have inv: "frontier_inv w base (snd ps)" by (rule reachable_inv)
  from inv show "distinct (urls_to_visit (snd ps))" by (simp add: frontier_inv_def)
  from inv show "set (urls_to_visit (snd ps)) \<inter> visited_urls (snd ps) = {}"
    by (simp add: frontier_inv_def)
  from inv show "distinct (popped (snd ps))" by (simp add: frontier_inv_def)
  from inv show "set (popped (snd ps)) = visited_urls (snd ps)" by (simp add: frontier_inv_def)
  assume c: "loop_cond max_pages ps"
  obtain n s where ps: "ps = (n, s)" by (cases ps)
  from c ps obtain u rest where q: "urls_to_visit s = u # rest"
    by (cases "urls_to_visit s") (auto simp: loop_cond_def)
  from inv ps have "frontier_inv w base s" by simp
  from inv_head_fresh [OF this q] have nv: "u \<notin> visited_urls s" by simp
  from nv q ps show "hd (urls_to_visit (snd ps)) \<notin> visited_urls (snd ps)" by simp
  from loop_body_fresh(3) [OF q nv, of w n] q ps
  show "visited_urls (snd (loop_body w ps)) =
          insert (hd (urls_to_visit (snd ps))) (visited_urls (snd ps))"
    by simp
qed

text \<open>
  An instance: the example site after its first iteration, and at the end of its crawl.
\<close>

theorem frontier_disjoint_witness:
  "reachable example_site 50 example_base
     (1, \<lparr>base_url = example_base, visited_urls = {example_base},
          urls_to_visit = [example_about],
          profiles = [PDict [(ascii ''name'', PStr (ascii ''Ada'')),
                             (ascii ''about'', PStr (ascii ''A pioneer''))]],
          saved = [], popped = [example_base]\<rparr>) \<and>
   set [example_about] \<inter> {example_base} = {} \<and>
   loop_cond 50
     (1, \<lparr>base_url = example_base, visited_urls = {example_base},
          urls_to_visit = [example_about],
          profiles = [PDict [(ascii ''name'', PStr (ascii ''Ada'')),
                             (ascii ''about'', PStr (ascii ''A pioneer''))]],
          saved = [], popped = [example_base]\<rparr>) \<and>
   example_about \<notin> {example_base} \<and>
   visited_urls (snd (loop_body example_site
     (1, \<lparr>base_url = example_base, visited_urls = {example_base},
          urls_to_visit = [example_about],
          profiles = [PDict [(ascii ''name'', PStr (ascii ''Ada'')),
                             (ascii ''about'', PStr (ascii ''A pioneer''))]],
          saved = [], popped = [example_base]\<rparr>))) = {example_about, example_base} \<and>
   scrape_website example_site 50 (new_scraper example_base) =
     Some \<lparr>base_url = example_base, visited_urls = {example_about, example_base},
           urls_to_visit = [],
           profiles = [PDict [(ascii ''name'', PStr (ascii ''Ada'')),
                              (ascii ''about'', PStr (ascii ''A pioneer''))]],
           saved = [PDict [(ascii ''profiles'',
                      PList [PDict [(ascii ''name'', PStr (ascii ''Ada'')),
                                    (ascii ''about'', PStr (ascii ''A pioneer''))]])]],
           popped = [example_base, example_about]\<rparr> \<and>
   distinct [example_base, example_about]"
  using frontier_disjoint [of example_site 50 example_base
      "(1, \<lparr>base_url = example_base, visited_urls = {example_base},
          urls_to_visit = [example_about],
          profiles = [PDict [(ascii ''name'', PStr (ascii ''Ada'')),
                             (ascii ''about'', PStr (ascii ''A pioneer''))]],
          saved = [], popped = [example_base]\<rparr>)"
      "\<lparr>base_url = example_base, visited_urls = {example_about, example_base},
           urls_to_visit = [],
           profiles = [PDict [(ascii ''name'', PStr (ascii ''Ada'')),
                              (ascii ''about'', PStr (ascii ''A pioneer''))]],
           saved = [PDict [(ascii ''profiles'',
                      PList [PDict [(ascii ''name'', PStr (ascii ''Ada'')),
                                    (ascii ''about'', PStr (ascii ''A pioneer''))]])]],
           popped = [example_base, example_about]\<rparr>"]
    example_reachable_1 example_crawl
  by (simp add: loop_cond_def example_urls_neq)




text \<open>
  C3. The counter of the loop is the number of pages processed successfully: at the head of
  every iteration of a crawl it equals the number of dequeued URLs for which
  \<open>scrape_page\<close> returned \<open>True\<close>, and an iteration adds one to it exactly when
  \<open>scrape_page\<close> returns \<open>True\<close> for the URL it dequeues. The iteration ends with a call
  of \<open>save_data\<close> exactly when the counter is then a multiple of 10, zero included, and
  the dump holds the profiles collected so far; when the loop has ended
  \<open>scrape_website\<close> saves once more.
\<close>

theorem periodic_save:
  "(\<forall>url s. fst (scrape_page w url s) = page_succeeds w url) \<and>
   (reachable w max_pages base ps \<longrightarrow>
      fst ps = int (length (filter (page_succeeds w) (popped (snd ps))))) \<and>
   (reachable w max_pages base ps \<and> loop_cond max_pages ps \<longrightarrow>
      popped (snd (loop_body w ps)) = popped (snd ps) @ [hd (urls_to_visit (snd ps))] \<and>
      fst (loop_body w ps) =
        (if page_succeeds w (hd (urls_to_visit (snd ps))) then fst ps + 1 else fst ps) \<and>
      saved (snd (loop_body w ps)) =
        (if fst (loop_body w ps) mod 10 = 0
         then saved (snd ps) @
                [PDict [(ascii ''profiles'', PList (profiles (snd (loop_body w ps))))]]
         else saved (snd ps))) \<and>
   (scrape_website w max_pages s = Some s' \<longrightarrow>
      (\<exists>ps'. crawl_loop w max_pages (enqueue_base s) = Some ps' \<and>
             \<not> loop_cond max_pages ps' \<and>
             profiles s' = profiles (snd ps') \<and>
             saved s' = saved (snd ps') @ [PDict [(ascii ''profiles'', PList (profiles s'))]]))"
proof (intro conjI impI allI)
  fix url s
  show "fst (scrape_page w url s) = page_succeeds w url" by (rule scrape_page_succeeds)
next
  assume "reachable w max_pages base ps"
  then show "fst ps = int (length (filter (page_succeeds w) (popped (snd ps))))"
    by (rule reachable_counter)
next
  assume a: "reachable w max_pages base ps \<and> loop_cond max_pages ps"
  obtain n st where ps: "ps = (n, st)" by (cases ps)
  from a ps obtain u rest where q: "urls_to_visit st = u # rest"
    by (cases "urls_to_visit st") (auto simp: loop_cond_def)
  from a ps have "frontier_inv w base st" using reachable_inv by fastforce
  from inv_head_fresh [OF this q] have nv: "u \<notin> visited_urls st" by simp
  note f = loop_body_fresh [OF q nv, of w n]
  from f(4) q ps
  show "popped (snd (loop_body w ps)) = popped (snd ps) @ [hd (urls_to_visit (snd ps))]"
    by simp
  from f(1) q ps
  show "fst (loop_body w ps) =
        (if page_succeeds w (hd (urls_to_visit (snd ps))) then fst ps + 1 else fst ps)"
    by (simp add: scrape_page_succeeds)
  from f(7) ps
  show "saved (snd (loop_body w ps)) =
        (if fst (loop_body w ps) mod 10 = 0
         then saved (snd ps) @
                [PDict [(ascii ''profiles'', PList (profiles (snd (loop_body w ps))))]]
         else saved (snd ps))"
    by simp
next
  assume a: "scrape_website w max_pages s = Some s'"
  then obtain ps' where l: "crawl_loop w max_pages (enqueue_base s) = Some ps'"
    and s': "s' = save_data (snd ps')"
    by (auto simp: scrape_website_def split: option.splits)
  from l have "\<not> loop_cond max_pages ps'"
    by (rule crawl_loop_stops)
  with l s' show "\<exists>ps'. crawl_loop w max_pages (enqueue_base s) = Some ps' \<and>
             \<not> loop_cond max_pages ps' \<and>
             profiles s' = profiles (snd ps') \<and>
             saved s' = saved (snd ps') @ [PDict [(ascii ''profiles'', PList (profiles s'))]]"
    by (simp add: save_data_def)
qed

text \<open>
  Instances. On the chain of pages with a budget of 10, nine pages have succeeded at the
  head of the tenth iteration and nothing has been saved; the tenth page succeeds, the
  counter reaches 10 and the iteration saves the ten profiles; the loop ends and the run
  saves them again. On the example site crawled from \<open>/about\<close>, whose fetch fails, the
  counter stays at zero, the iteration saves, and so does the end of the run.
\<close>

theorem periodic_save_witness:
  "reachable chain_site 10 endless_base (chain_state 9) \<and>
   loop_cond 10 (chain_state 9) \<and>
   fst (chain_state 9) = 9 \<and>
   length (filter (page_succeeds chain_site) (popped (snd (chain_state 9)))) = 9 \<and>
   saved (snd (chain_state 9)) = [] \<and>
   page_succeeds chain_site (hd (urls_to_visit (snd (chain_state 9)))) \<and>
   fst (loop_body chain_site (chain_state 9)) = 10 \<and>
   saved (snd (loop_body chain_site (chain_state 9))) =
     [PDict [(ascii ''profiles'', PList (replicate 10 ada_record))]] \<and>
   scrape_website chain_site 10 (new_scraper endless_base) =
     Some (save_data (save_data (snd (chain_state 10)))) \<and>
   saved (save_data (save_data (snd (chain_state 10)))) =
     [PDict [(ascii ''profiles'', PList (replicate 10 ada_record))],
      PDict [(ascii ''profiles'', PList (replicate 10 ada_record))]] \<and>
   reachable example_site 50 example_about (enqueue_base (new_scraper example_about)) \<and>
   loop_cond 50 (enqueue_base (new_scraper example_about)) \<and>
   \<not> page_succeeds example_site example_about \<and>
   loop_body example_site (enqueue_base (new_scraper example_about)) =
     (0, \<lparr>base_url = example_about, visited_urls = {example_about}, urls_to_visit = [],
          profiles = [], saved = [PDict [(ascii ''profiles'', PList [])]],
          popped = [example_about]\<rparr>) \<and>
   scrape_website example_site 50 (new_scraper example_about) =
     Some \<lparr>base_url = example_about, visited_urls = {example_about}, urls_to_visit = [],
           profiles = [],
           saved = [PDict [(ascii ''profiles'', PList [])], PDict [(ascii ''profiles'', PList [])]],
           popped = [example_about]\<rparr>"
proof -
  let ?s1 = "\<lparr>base_url = example_about, visited_urls = {example_about}, urls_to_visit = [],
          profiles = [], saved = [PDict [(ascii ''profiles'', PList [])]],
          popped = [example_about]\<rparr>"
  let ?s2 = "\<lparr>base_url = example_about, visited_urls = {example_about}, urls_to_visit = [],
           profiles = [],
           saved = [PDict [(ascii ''profiles'', PList [])], PDict [(ascii ''profiles'', PList [])]],
           popped = [example_about]\<rparr>"
  let ?end = "save_data (save_data (snd (chain_state 10)))"
  have r9: "reachable chain_site 10 endless_base (chain_state 9)"
    by (rule chain_reachable) simp
  have c9: "loop_cond 10 (chain_state 9)" by (rule chain_cond) simp
  have run: "scrape_website chain_site 10 (new_scraper endless_base) = Some ?end"
    by (rule chain_crawl)
  note chain = periodic_save [of chain_site 10 endless_base "chain_state 9"
      "new_scraper endless_base" ?end]
  from chain r9 have n9: "fst (chain_state 9) =
      int (length (filter (page_succeeds chain_site) (popped (snd (chain_state 9)))))"
    by blast
  from chain r9 c9 have sv: "saved (snd (loop_body chain_site (chain_state 9))) =
        (if fst (loop_body chain_site (chain_state 9)) mod 10 = 0
         then saved (snd (chain_state 9)) @
                [PDict [(ascii ''profiles'', PList (profiles (snd (loop_body chain_site (chain_state 9)))))]]
         else saved (snd (chain_state 9)))"
    by blast
  have f9: "fst (chain_state 9) = 9" "saved (snd (chain_state 9)) = []"
      "hd (urls_to_visit (snd (chain_state 9))) = chain_url 9"
    by (simp_all add: chain_state_def)
  have ten: "fst (loop_body chain_site (chain_state 9)) = 10"
      "profiles (snd (loop_body chain_site (chain_state 9))) = replicate 10 ada_record"
    by (simp_all add: chain_tenth save_data_fields) (simp add: chain_state_def)
  have e: "saved ?end = [PDict [(ascii ''profiles'', PList (replicate 10 ada_record))],
                     PDict [(ascii ''profiles'', PList (replicate 10 ada_record))]]"
    by (simp add: save_data_def chain_state_def)
  have c: "loop_cond 50 (enqueue_base (new_scraper example_about))"
    by (simp add: loop_cond_def enqueue_base_def new_scraper_def)
  have "crawl_loop example_site 50 (0, ?s1) = Some (0, ?s1)"
    by (subst crawl_loop.simps) (simp add: loop_cond_def)
  with c have "crawl_loop example_site 50 (enqueue_base (new_scraper example_about)) = Some (0, ?s1)"
    by (subst crawl_loop.simps) (simp add: example_about_iteration)
  then have w: "scrape_website example_site 50 (new_scraper example_about) = Some ?s2"
    by (simp add: scrape_website_def save_data_def)
  have nf: "\<not> page_succeeds example_site example_about"
    by (simp add: page_succeeds_def example_site_fields example_base_page)
  note about = periodic_save [of example_site 50 example_about
      "enqueue_base (new_scraper example_about)" "new_scraper example_about" ?s2]
  from about reachable.start [of example_site 50 example_about] c
  have "fst (loop_body example_site (enqueue_base (new_scraper example_about))) =
      (if page_succeeds example_site
            (hd (urls_to_visit (snd (enqueue_base (new_scraper example_about)))))
       then fst (enqueue_base (new_scraper example_about)) + 1
       else fst (enqueue_base (new_scraper example_about)))"
    by blast
  with r9 c9 n9 sv f9 ten run e c w nf show ?thesis
    using reachable.start [of example_site 50 example_about]
    by (simp add: chain_page_succeeds example_about_iteration)
qed

text \<open>
  C5. The claim asks that the loop ends for every base URL and every budget. On the site
  without end it does not: each page scraped enqueues one new URL and then fails in
  \<open>urljoin\<close> on the malformed anchor, so the queue never empties and the counter stays
  at zero.
\<close>

theorem endless_crawl: "scrape_website endless_site 50 (new_scraper endless_base) = None"
proof -
  have "endless_inv (enqueue_base (new_scraper endless_base))"
    by (simp add: endless_inv_def enqueue_base_def new_scraper_def)
  then show ?thesis by (simp add: scrape_website_def endless_loop)
qed

text \<open>
  C6, as stated, fails for the base URL: \<open>scrape_website\<close> appends it to the queue
  without asking \<open>is_valid_url\<close>. With the base URL \<open>example.com\<close>, which has no
  scheme, the check rejects the base URL and the queue holds it all the same.
\<close>

theorem base_url_counterexample:
  "\<not> is_valid_url example_site (new_scraper bare_host) bare_host \<and>
   urls_to_visit (snd (enqueue_base (new_scraper bare_host))) = [bare_host]"
  by (simp add: example_admission(4) [OF example_site_fields(2)] enqueue_base_def new_scraper_def)

text \<open>
  C6, amended. Every URL that is in the queue or has been dequeued during a crawl is the
  base URL or is admitted by \<open>is_valid_url\<close>: a rejected URL other than the base URL
  is never added to the queue.
\<close>

theorem only_admitted_enqueued:
  "reachable w max_pages base ps \<Longrightarrow>
     \<forall>u \<in> set (urls_to_visit (snd ps)) \<union> set (popped (snd ps)).
        u = base \<or> is_valid_url w (new_scraper base) u"
  using reachable_inv [of w max_pages base ps] by (simp add: frontier_inv_def)

text \<open>
  An instance: the example site after its first iteration.
\<close>

theorem only_admitted_enqueued_witness:
  "reachable example_site 50 example_base
     (1, \<lparr>base_url = example_base, visited_urls = {example_base},
          urls_to_visit = [example_about],
          profiles = [PDict [(ascii ''name'', PStr (ascii ''Ada'')),
                             (ascii ''about'', PStr (ascii ''A pioneer''))]],
          saved = [], popped = [example_base]\<rparr>) \<and>
   is_valid_url example_site (new_scraper example_base) example_about \<and>
   \<not> is_valid_url example_site (new_scraper example_base) example_other"
  using only_admitted_enqueued [OF example_reachable_1] example_reachable_1
    example_admission(2) [OF example_site_fields(2), of "new_scraper example_base"]
  by (simp add: example_urls_neq new_scraper_def)

text \<open>
  C7. \<open>is_valid_url\<close> returns true only if both URLs parse, the netloc of the URL (its
  host, with the port and the user information when present) equals that of the base URL,
  and the scheme is \<open>http\<close> or \<open>https\<close>; when \<open>urlparse\<close> raises, the result is
  false.
\<close>

theorem is_valid_url_same_netloc_http:
  "(is_valid_url w s url \<longrightarrow>
      (\<exists>parsed_base parsed_url.
          urlparse w (base_url s) = Some parsed_base \<and> urlparse w url = Some parsed_url \<and>
          netloc parsed_url = netloc parsed_base \<and>
          (scheme parsed_url = ascii ''http'' \<or> scheme parsed_url = ascii ''https''))) \<and>
   (urlparse w url = None \<or> urlparse w (base_url s) = None \<longrightarrow> \<not> is_valid_url w s url)"
  by (auto simp: is_valid_url_def split: option.splits)

text \<open>
  Instances: \<open>/about\<close> is admitted on the example site, the malformed \<open>http://[\<close> is
  rejected.
\<close>

theorem is_valid_url_same_netloc_http_witness:
  "is_valid_url example_site (new_scraper example_base) example_about \<and>
   urlparse example_site example_base =
     Some \<lparr>scheme = ascii ''http'', netloc = ascii ''example.com''\<rparr> \<and>
   urlparse example_site example_about =
     Some \<lparr>scheme = ascii ''http'', netloc = ascii ''example.com''\<rparr> \<and>
   urlparse example_site bad_href = None \<and>
   \<not> is_valid_url example_site (new_scraper example_base) bad_href"
  using is_valid_url_same_netloc_http [of example_site "new_scraper example_base" example_about]
    is_valid_url_same_netloc_http [of example_site "new_scraper example_base" bad_href]
    example_admission(1) [OF example_site_fields(2), of "new_scraper example_base"]
  by (simp add: example_site_fields example_urlparse_values new_scraper_def)




end
